theory Spec2Isabelle
  imports Complex_Main "HOL-Library.Sublist" "HOL-Library.Char_ord" "HOL-Library.List_Lexorder"
begin

section \<open>JavaScript strings\<close>

text \<open>
  Strings are lists of code units; the development covers ASCII text, on which the byte
  order of \<^typ>\<open>char\<close> and the lexicographic order of lists coincide with the code-unit
  order that JavaScript's default \<open>Array.prototype.sort\<close> uses, and on which
  \<open>trim\<close>, \<open>toLowerCase\<close>, \<open>\d\<close>, \<open>\w\<close> and \<open>\b\<close> are the ASCII ones.
\<close>

abbreviation NL :: string where
  "NL \<equiv> [CHR 0x0A]"

definition is_space :: "char \<Rightarrow> bool" where
  "is_space c = (c \<in> set [CHR 0x09, CHR 0x0A, CHR 0x0B, CHR 0x0C, CHR 0x0D, CHR 0x20])"

definition trim :: "string \<Rightarrow> string" where
  "trim s = rev (dropWhile is_space (rev (dropWhile is_space s)))"

fun index_of :: "string \<Rightarrow> string \<Rightarrow> nat option" where
  "index_of sub [] = (if sub = [] then Some 0 else None)"
| "index_of sub (c # cs) =
     (if prefix sub (c # cs) then Some 0 else map_option Suc (index_of sub cs))"

definition js_includes :: "string \<Rightarrow> string \<Rightarrow> bool" where
  "js_includes s sub = (index_of sub s \<noteq> None)"

lemma index_of_bound: "index_of sub s = Some i \<Longrightarrow> i + length sub \<le> length s"
proof (induction s arbitrary: i)
  case Nil
  then show ?case by (simp split: if_splits)
next
  case (Cons c cs)
  show ?case
  proof (cases "prefix sub (c # cs)")
    case True
    with Cons.prems show ?thesis by (auto dest: prefix_length_le)
  next
    case False
    with Cons.prems obtain j where "index_of sub cs = Some j" "i = Suc j" by auto
    with Cons.IH show ?thesis by fastforce
  qed
qed

text \<open>\<open>s.split(sep)\<close>: cut at every occurrence of the separator, left to right; the
  empty separator cuts between all code units.\<close>

function split :: "string \<Rightarrow> string \<Rightarrow> string list" where
  "split sep s =
     (if sep = [] then map (\<lambda>c. [c]) s
      else case index_of sep s of
             None \<Rightarrow> [s]
           | Some i \<Rightarrow> take i s # split sep (drop (i + length sep) s))"
  by pat_completeness auto
termination
proof (relation "measure (\<lambda>(sep, s). length s)")
  show "wf (measure (\<lambda>(sep, s). length s))" by simp
next
  fix sep s :: string and i
  assume "sep \<noteq> []" and "index_of sep s = Some i"
  then have "i + length sep \<le> length s" and "0 < length sep"
    by (auto dest: index_of_bound)
  then have "length (drop (i + length sep) s) < length s"
    by (simp del: length_greater_0_conv)
  then show "((sep, drop (i + length sep) s), (sep, s)) \<in> measure (\<lambda>(sep, s). length s)"
    by simp
qed

declare split.simps [simp del]

fun join :: "string \<Rightarrow> string list \<Rightarrow> string" where
  "join sep [] = []"
| "join sep [x] = x"
| "join sep (x # y # ys) = x @ sep @ join sep (y # ys)"

section \<open>The version-control boundary\<close>

text \<open>An \<open>execa\<close> call either resolves with the standard output or rejects with an
  error whose \<open>stderr\<close> may be absent.\<close>

datatype exec_result = ExecOk string | ExecFail "string option"

text \<open>\<open>error.stderr && error.stderr.includes(needle)\<close>\<close>

definition stderr_includes :: "string option \<Rightarrow> string \<Rightarrow> bool" where
  "stderr_includes e needle =
     (case e of None \<Rightarrow> False | Some s \<Rightarrow> s \<noteq> [] \<and> js_includes s needle)"

datatype error =
    NotAGitRepository
  | GitUserConfigError
  | CurrentBranchError
  | ClientNotInitialized
  | NoModelsAvailable
  | ModelFailed string
  | AggregateFailure string

section \<open>Commit aggregation\<close>

record commit =
  message :: string
  date :: string
  hash :: string
  branches :: "string list"

definition COMMIT_SEPARATOR :: string where
  "COMMIT_SEPARATOR = ''---COMMIT_SEPARATOR---''"

definition commit_blocks :: "string \<Rightarrow> string list" where
  "commit_blocks stdout =
     filter (\<lambda>block. trim block \<noteq> []) (split (COMMIT_SEPARATOR @ NL) (trim stdout))"

text \<open>One block of the log output: hash, date and full message, when it has at least
  three lines.\<close>

definition parse_block :: "string \<Rightarrow> (string \<times> string \<times> string) option" where
  "parse_block block =
     (let lines = split NL (trim block) in
      if length lines \<ge> 3 then
        let hash = lines ! 0;
            date = lines ! 1;
            subject = lines ! 2;
            body = trim (join NL (drop 3 lines));
            fullMessage = (if body \<noteq> [] then subject @ NL @ NL @ body else subject)
        in Some (hash, date, fullMessage)
      else None)"

text \<open>A JavaScript \<open>Set\<close> of branch names keeps insertion order.\<close>

definition set_add :: "string list \<Rightarrow> string \<Rightarrow> string list" where
  "set_add xs x = (if x \<in> set xs then xs else xs @ [x])"

text \<open>\<open>commitsByHash\<close> is a \<open>Map\<close>, which also keeps insertion order: the list of its
  values, at most one per hash.\<close>

definition record_sighting ::
  "string \<Rightarrow> commit list \<Rightarrow> string \<times> string \<times> string \<Rightarrow> commit list" where
  "record_sighting branch commitsByHash p =
     (case p of (h, d, fullMessage) \<Rightarrow>
        if \<not> list_ex (\<lambda>c. hash c = h) commitsByHash
        then commitsByHash @ [\<lparr>message = fullMessage, date = d, hash = h, branches = [branch]\<rparr>]
        else map (\<lambda>c. if hash c = h then c\<lparr>branches := set_add (branches c) branch\<rparr> else c)
               commitsByHash)"

definition scan_block :: "string \<Rightarrow> commit list \<Rightarrow> string \<Rightarrow> commit list" where
  "scan_block branch commitsByHash block =
     (case parse_block block of
        None \<Rightarrow> commitsByHash
      | Some p \<Rightarrow> record_sighting branch commitsByHash p)"

text \<open>The loop over the branches. \<open>git_log branch\<close> is the outcome of the history query
  for that branch (author and time window are fixed for the run). The result is \<open>Inl\<close>
  of the rejected query's \<open>stderr\<close> when the inner handler rethrows.\<close>

fun scan_branches ::
  "(string \<Rightarrow> exec_result) \<Rightarrow> string list \<Rightarrow> commit list \<Rightarrow> string option + commit list" where
  "scan_branches git_log [] commitsByHash = Inr commitsByHash"
| "scan_branches git_log (branch # rest) commitsByHash =
     (case git_log branch of
        ExecFail err \<Rightarrow>
          if stderr_includes err ''unknown revision or path''
          then scan_branches git_log rest commitsByHash
          else Inl err
      | ExecOk stdout \<Rightarrow>
          if trim stdout = [] then scan_branches git_log rest commitsByHash
          else scan_branches git_log rest
                 (foldl (scan_block branch) commitsByHash (commit_blocks stdout)))"

definition fetchCommits ::
  "(string \<Rightarrow> exec_result) \<Rightarrow> string list option \<Rightarrow> error + commit list" where
  "fetchCommits git_log branchList =
     (let branchesToScan =
            (case branchList of
               None \<Rightarrow> [''HEAD'']
             | Some bs \<Rightarrow> if length bs > 0 then bs else [''HEAD''])
      in case scan_branches git_log branchesToScan [] of
           Inr commitsByHash \<Rightarrow>
             Inr (map (\<lambda>c. c\<lparr>branches := sort (branches c)\<rparr>) commitsByHash)
         | Inl err \<Rightarrow>
             if stderr_includes err ''fatal: not a git repository''
             then Inl NotAGitRepository
             else Inr [])"


text \<open>\<open>Array.from(new Set(xs))\<close>: the first occurrence of each element, in order.\<close>

definition unique_in_order :: "string list \<Rightarrow> string list" where
  "unique_in_order xs = foldl set_add [] xs"

section \<open>Character classes\<close>

definition is_upper :: "char \<Rightarrow> bool" where
  "is_upper c = (CHR ''A'' \<le> c \<and> c \<le> CHR ''Z'')"

definition is_lower :: "char \<Rightarrow> bool" where
  "is_lower c = (CHR ''a'' \<le> c \<and> c \<le> CHR ''z'')"

definition is_digit :: "char \<Rightarrow> bool" where
  "is_digit c = (CHR ''0'' \<le> c \<and> c \<le> CHR ''9'')"

text \<open>The class \<open>\w\<close>.\<close>

definition is_word :: "char \<Rightarrow> bool" where
  "is_word c = (is_upper c \<or> is_lower c \<or> is_digit c \<or> c = CHR ''_'')"

definition to_lower_char :: "char \<Rightarrow> char" where
  "to_lower_char c = (if is_upper c then char_of (of_char c + (32 :: nat)) else c)"

definition toLowerCase :: "string \<Rightarrow> string" where
  "toLowerCase s = map to_lower_char s"

section \<open>Model catalogue\<close>

text \<open>\<open>name.match(/gemini-(\d+(?:\.\d+)?)/i)\<close>: the leftmost position where \<open>gemini-\<close>
  is followed by a digit; the digits are taken greedily, and so is the fraction when a
  dot and a digit follow. The result is the integer part and the optional fraction.\<close>

fun match_version :: "string \<Rightarrow> (string \<times> string option) option" where
  "match_version [] = None"
| "match_version (c # cs) =
     (let r = drop 7 (c # cs) in
      if prefix ''gemini-'' (toLowerCase (c # cs)) \<and> takeWhile is_digit r \<noteq> [] then
        (case dropWhile is_digit r of
           [] \<Rightarrow> Some (takeWhile is_digit r, None)
         | d # r' \<Rightarrow>
             if d = CHR ''.'' \<and> takeWhile is_digit r' \<noteq> []
             then Some (takeWhile is_digit r, Some (takeWhile is_digit r'))
             else Some (takeWhile is_digit r, None))
      else match_version cs)"

definition digits_value :: "string \<Rightarrow> nat" where
  "digits_value ds = foldl (\<lambda>n d. 10 * n + (of_char d - 48)) 0 ds"

text \<open>\<open>parseFloat\<close> of a decimal numeral, as the exact rational it denotes (the
  double nearest to it in the program; equal to it for the short versions of model
  names, such as 1.5 and 2.5).\<close>

definition parseFloat :: "string \<times> string option \<Rightarrow> rat" where
  "parseFloat p =
     (case p of
        (ip, None) \<Rightarrow> of_nat (digits_value ip)
      | (ip, Some fp) \<Rightarrow> of_nat (digits_value ip) + of_nat (digits_value fp) / 10 ^ length fp)"

definition extractVersion :: "string \<Rightarrow> rat" where
  "extractVersion name = (case match_version name of Some m \<Rightarrow> parseFloat m | None \<Rightarrow> 0)"

definition isExperimentalModel :: "string \<Rightarrow> bool" where
  "isExperimentalModel lowerName =
     (js_includes lowerName ''exp'' \<or> js_includes lowerName ''preview''
      \<or> js_includes lowerName ''beta'')"

definition scoreModelName :: "string \<Rightarrow> rat" where
  "scoreModelName name =
     (let lower = toLowerCase name;
          score0 = (if suffix ''-flash'' lower then 10000
                    else if js_includes lower ''flash'' then 5000 else 0);
          score1 = score0 + extractVersion lower * 1000;
          score2 = (if js_includes lower ''latest'' then score1 + 10 else score1);
          score3 = (if isExperimentalModel lower then score2 - 30 else score2);
          score4 = (if js_includes lower ''8b'' \<or> js_includes lower ''lite''
                       \<or> js_includes lower ''mini''
                    then score3 - 50 else score3)
      in if js_includes lower ''pro'' then score4 - 100 else score4)"

text \<open>\<open>simpleNames\<close> is a \<open>Set\<close>, given as its elements in insertion order. The
  comparator \<open>(a, b) => scoreModelName(b) - scoreModelName(a)\<close> with the stable
  \<open>Array.prototype.sort\<close> orders by descending score and keeps the order of ties.\<close>

definition buildDynamicModelPreference :: "string list \<Rightarrow> string list" where
  "buildDynamicModelPreference simpleNames =
     (if simpleNames = [] then []
      else sort_key (\<lambda>name. - scoreModelName name)
             (filter (\<lambda>name. name \<noteq> [] \<and>
                        (let lower = toLowerCase name in
                           js_includes lower ''gemini'' \<and> js_includes lower ''flash''
                           \<and> \<not> isExperimentalModel lower))
                simpleNames))"

definition dedupeModelList :: "string list \<Rightarrow> string list" where
  "dedupeModelList list = unique_in_order (filter (\<lambda>item. item \<noteq> []) list)"

definition simplifyModelName :: "string option \<Rightarrow> string option" where
  "simplifyModelName name =
     (case name of
        None \<Rightarrow> None
      | Some n \<Rightarrow>
          if n = [] then None
          else if trim n = [] then None
          else Some (last (split ''/'' (trim n))))"

section \<open>Provider errors and responses\<close>

text \<open>A status is a number or a string.\<close>

datatype js_val = JNum int | JStr string

definition truthy :: "js_val option \<Rightarrow> bool" where
  "truthy v = (case v of None \<Rightarrow> False | Some (JNum n) \<Rightarrow> n \<noteq> 0 | Some (JStr s) \<Rightarrow> s \<noteq> [])"

text \<open>The fields of a thrown error that the program reads: \<open>status\<close>, \<open>code\<close>,
  \<open>cause.status\<close>, \<open>response.status\<close> and \<open>message\<close>.\<close>

record api_error =
  err_status :: "js_val option"
  err_code :: "js_val option"
  err_cause_status :: "js_val option"
  err_response_status :: "js_val option"
  err_message :: "string option"

text \<open>\<open>new Error(msg)\<close>\<close>

definition new_Error :: "string \<Rightarrow> api_error" where
  "new_Error msg = \<lparr>err_status = None, err_code = None, err_cause_status = None,
                    err_response_status = None, err_message = Some msg\<rparr>"

definition extractStatusCode :: "api_error \<Rightarrow> js_val option" where
  "extractStatusCode e =
     (if truthy (err_status e) then err_status e
      else if truthy (err_code e) then err_code e
      else if truthy (err_cause_status e) then err_cause_status e
      else err_response_status e)"

text \<open>\<open>error.message || dflt\<close>\<close>

definition message_or :: "api_error \<Rightarrow> string \<Rightarrow> string" where
  "message_or e dflt = (case err_message e of None \<Rightarrow> dflt | Some m \<Rightarrow> if m = [] then dflt else m)"

definition isRetryableError :: "api_error \<Rightarrow> bool" where
  "isRetryableError e =
     (let status = extractStatusCode e; msg = toLowerCase (message_or e [])
      in status = Some (JNum 429) \<or> status = Some (JNum 500) \<or> status = Some (JNum 503)
         \<or> status = Some (JStr ''UNAVAILABLE'') \<or> status = Some (JStr ''RESOURCE_EXHAUSTED'')
         \<or> js_includes msg ''temporarily'' \<or> js_includes msg ''timeout'')"

definition isQuotaOrPermissionError :: "api_error \<Rightarrow> bool" where
  "isQuotaOrPermissionError e =
     (let status = extractStatusCode e; msg = toLowerCase (message_or e [])
      in status = Some (JNum 403) \<or> status = Some (JStr ''PERMISSION_DENIED'')
         \<or> status = Some (JStr ''RESOURCE_EXHAUSTED'')
         \<or> js_includes msg ''quota'' \<or> js_includes msg ''billing''
         \<or> js_includes msg ''permission'')"

definition isModelNotFound :: "api_error \<Rightarrow> bool" where
  "isModelNotFound e =
     (let status = extractStatusCode e; msg = toLowerCase (message_or e [])
      in status = Some (JNum 404) \<or> status = Some (JStr ''NOT_FOUND'')
         \<or> js_includes msg ''not found'' \<or> js_includes msg ''unsupported'')"

definition shouldFallbackToNextModel :: "api_error \<Rightarrow> bool" where
  "shouldFallbackToNextModel e =
     (isQuotaOrPermissionError e \<or> isModelNotFound e \<or> isRetryableError e)"

text \<open>A response: its top-level \<open>text\<close> and, for each candidate, the \<open>text\<close> of each of
  its content parts (an absent level is an empty list).\<close>

record response =
  resp_text :: "string option"
  resp_candidates :: "string option list list"

text \<open>The \<open>text\<close> of every part of every candidate that has one, in order.\<close>

definition part_texts :: "response \<Rightarrow> string list" where
  "part_texts response =
     concat (map (List.map_filter
                    (\<lambda>part. case part of None \<Rightarrow> None | Some x \<Rightarrow> if x = [] then None else Some x))
               (resp_candidates response))"

definition extractResponseText :: "response option \<Rightarrow> string" where
  "extractResponseText r =
     (case r of
        None \<Rightarrow> []
      | Some response \<Rightarrow>
          (case resp_text response of
             Some t \<Rightarrow>
               if trim t \<noteq> [] then trim t
               else trim (join NL (part_texts response))
           | None \<Rightarrow> trim (join NL (part_texts response))))"

section \<open>Process state and environment\<close>

text \<open>What the run does to the outside: provider calls and back-off sleeps, in order.\<close>

datatype event = ListModels | GenerateContent string | Sleep nat

text \<open>The module-level variables, and the trace of events so far. A memoised promise is
  \<open>None\<close> while the variable is unset and \<open>Some\<close> of its value afterwards (a promise
  object is truthy whatever it resolves to).\<close>

record state =
  availableModelInfoPromise :: "string list option option"
  resolvedModelPreferencePromise :: "string list option"
  modelListingWarningLogged :: bool
  trace :: "event list"

definition initial_state :: state where
  "initial_state = \<lparr>availableModelInfoPromise = None, resolvedModelPreferencePromise = None,
                     modelListingWarningLogged = False, trace = []\<rparr>"

text \<open>The inputs of a run: the configuration and the answers of git and of the provider.
  The provider's answers may depend on everything that happened before. \<open>models_list\<close>
  is \<open>None\<close> when the listing throws, and else the \<open>name\<close> of every model listed.
  The prompts of a request are fixed within one call of \<open>generateSummary\<close>, so a request
  is identified by its model.\<close>

record env =
  demoMode :: bool
  requestedModel :: "string option"
  recentBranchesCount :: nat
  git_user_name :: exec_result
  git_user_email :: exec_result
  rev_parse :: exec_result
  for_each_ref :: exec_result
  git_log :: "string \<Rightarrow> exec_result"
  date_relative_text :: "commit list \<Rightarrow> string"
  models_list :: "event list \<Rightarrow> string option list option"
  generate_content :: "event list \<Rightarrow> string \<Rightarrow> api_error + response option"

text \<open>\<open>aiClient\<close> is assigned once, at start-up, when \<open>demoMode\<close> is off; what the
  program tests is whether it is defined.\<close>

definition aiClient :: "env \<Rightarrow> bool" where
  "aiClient e = (\<not> demoMode e)"

definition record_event :: "event \<Rightarrow> state \<Rightarrow> state" where
  "record_event ev st = st\<lparr>trace := trace st @ [ev]\<rparr>"

definition provider_calls :: "event list \<Rightarrow> event list" where
  "provider_calls tr = filter (\<lambda>ev. case ev of Sleep _ \<Rightarrow> False | _ \<Rightarrow> True) tr"

section \<open>Model preference resolution\<close>

text \<open>The loop over the pager: the simplified names that are not empty, as a \<open>Set\<close>.\<close>

definition collect_simple_names :: "string option list \<Rightarrow> string list" where
  "collect_simple_names names =
     unique_in_order (List.map_filter
        (\<lambda>name. case simplifyModelName name of
                   None \<Rightarrow> None
                 | Some simplified \<Rightarrow> if simplified = [] then None else Some simplified)
        names)"

definition loadAvailableModelInfo :: "env \<Rightarrow> state \<Rightarrow> string list option \<times> state" where
  "loadAvailableModelInfo e st =
     (if \<not> aiClient e then (None, st)
      else case models_list e (trace st) of
             Some names \<Rightarrow> (Some (collect_simple_names names), record_event ListModels st)
           | None \<Rightarrow> (None, (record_event ListModels st)\<lparr>modelListingWarningLogged := True\<rparr>))"

definition getAvailableModelInfo :: "env \<Rightarrow> state \<Rightarrow> string list option \<times> state" where
  "getAvailableModelInfo e st =
     (if \<not> aiClient e then (None, st)
      else case availableModelInfoPromise st of
             Some info \<Rightarrow> (info, st)
           | None \<Rightarrow>
               (case loadAvailableModelInfo e st of
                  (info, st') \<Rightarrow> (info, st'\<lparr>availableModelInfoPromise := Some info\<rparr>)))"

text \<open>The body of the memoised function: the override when one is given, and else the
  preference built from the discovered names.\<close>

definition discover_preference :: "env \<Rightarrow> state \<Rightarrow> string list \<times> state" where
  "discover_preference e st =
     (case getAvailableModelInfo e st of
        (None, st') \<Rightarrow> ([], st')
      | (Some simpleNames, st') \<Rightarrow>
          if simpleNames = [] then ([], st')
          else (dedupeModelList (buildDynamicModelPreference simpleNames), st'))"

definition resolve_fresh :: "env \<Rightarrow> state \<Rightarrow> string list \<times> state" where
  "resolve_fresh e st =
     (case requestedModel e of
        Some m \<Rightarrow> if m \<noteq> [] then ([m], st) else discover_preference e st
      | None \<Rightarrow> discover_preference e st)"

definition getResolvedModelPreference :: "env \<Rightarrow> state \<Rightarrow> string list \<times> state" where
  "getResolvedModelPreference e st =
     (case resolvedModelPreferencePromise st of
        Some resolved \<Rightarrow> (resolved, st)
      | None \<Rightarrow>
          (case resolve_fresh e st of
             (resolved, st') \<Rightarrow> (resolved, st'\<lparr>resolvedModelPreferencePromise := Some resolved\<rparr>)))"

text \<open>Any number of invocations in a row; the results, and the final state.\<close>

fun resolve_times :: "nat \<Rightarrow> env \<Rightarrow> state \<Rightarrow> string list list \<times> state" where
  "resolve_times 0 e st = ([], st)"
| "resolve_times (Suc n) e st =
     (case getResolvedModelPreference e st of
        (r, st') \<Rightarrow> (case resolve_times n e st' of (rs, st'') \<Rightarrow> (r # rs, st'')))"

section \<open>Generation with retry and fallback\<close>

definition MAX_AI_RETRIES :: nat where
  "MAX_AI_RETRIES = 3"

definition RETRY_BASE_DELAY_MS :: nat where
  "RETRY_BASE_DELAY_MS = 1200"

text \<open>The retry loop, entered with the current value of \<open>attempt\<close>. Falling out of the
  loop would resolve to \<open>undefined\<close>.\<close>

function callWithRetries_from ::
  "env \<Rightarrow> string \<Rightarrow> nat \<Rightarrow> state \<Rightarrow> (api_error + response option) \<times> state" where
  "callWithRetries_from e model attempt st =
     (if attempt < MAX_AI_RETRIES then
        (case generate_content e (trace st) model of
           Inr response \<Rightarrow> (Inr response, record_event (GenerateContent model) st)
         | Inl error \<Rightarrow>
             if attempt + 1 \<ge> MAX_AI_RETRIES \<or> \<not> isRetryableError error
             then (Inl error, record_event (GenerateContent model) st)
             else callWithRetries_from e model (attempt + 1)
                    (record_event (Sleep (RETRY_BASE_DELAY_MS * 2 ^ (attempt + 1 - 1)))
                       (record_event (GenerateContent model) st)))
      else (Inr None, st))"
  by pat_completeness auto
termination
  by (relation "measure (\<lambda>(e, model, attempt, st). MAX_AI_RETRIES - attempt)") auto

declare callWithRetries_from.simps [simp del]

definition callWithRetries ::
  "env \<Rightarrow> string \<Rightarrow> state \<Rightarrow> (api_error + response option) \<times> state" where
  "callWithRetries e model st = callWithRetries_from e model 0 st"

definition formatAggregateError :: "(string \<times> string) list \<Rightarrow> string" where
  "formatAggregateError errors =
     (if length errors = 0 then ''Unknown AI error.''
      else ''AI summarization failed. Details: ''
           @ join '' | '' (map (\<lambda>(model, msg). model @ '': '' @ msg) errors)
           @ ''. Last error from '' @ fst (last errors) @ '': '' @ snd (last errors))"

section \<open>Jira tickets\<close>

text \<open>The pattern \<open>[A-Z]+-\d+\b\<close> at the start of a string: the matched text and
  what follows it. Both repetitions are greedy, and giving back a letter or a digit
  never helps: the next code unit would be a letter where the dash is needed, or a digit
  where the word boundary is needed.\<close>

definition match_ticket_here :: "string \<Rightarrow> (string \<times> string) option" where
  "match_ticket_here s =
     (if takeWhile is_upper s = [] then None
      else case dropWhile is_upper s of
             [] \<Rightarrow> None
           | c # r \<Rightarrow>
               if c \<noteq> CHR ''-'' \<or> takeWhile is_digit r = [] then None
               else (case dropWhile is_digit r of
                       [] \<Rightarrow> Some (takeWhile is_upper s @ ''-'' @ takeWhile is_digit r, [])
                     | d # r' \<Rightarrow>
                         if is_word d then None
                         else Some (takeWhile is_upper s @ ''-'' @ takeWhile is_digit r, d # r')))"

lemma match_ticket_here_shorter:
  "match_ticket_here s = Some (t, rest) \<Longrightarrow> length rest < length s"
proof -
  assume m: "match_ticket_here s = Some (t, rest)"
  have a: "length (dropWhile is_upper s) \<le> length s"
    by (rule length_dropWhile_le)
  show ?thesis
  proof (cases "dropWhile is_upper s")
    case Nil
    from m show ?thesis
      unfolding match_ticket_here_def Nil by (simp split: if_splits)
  next
    case (Cons c r)
    have b: "length (dropWhile is_digit r) \<le> length r"
      by (rule length_dropWhile_le)
    from a Cons have c: "length r < length s" by simp
    from m have "rest = dropWhile is_digit r"
      unfolding match_ticket_here_def Cons
      by (cases "dropWhile is_digit r") (simp_all del: dropWhile_eq_Nil_conv split: if_splits)
    with b c show ?thesis by simp
  qed
qed

text \<open>\<open>message.match(/\b([A-Z]+-\d+)\b/g)\<close>: all matches, left to right, each search
  starting where the previous match ended. \<open>prev\<close> is the code unit before the current
  position, if any; a match can start only at a word boundary, that is after a code unit
  that is not of class \<open>\w\<close>.\<close>

function match_tickets :: "char option \<Rightarrow> string \<Rightarrow> string list" where
  "match_tickets prev [] = []"
| "match_tickets prev (c # cs) =
     (if (case prev of None \<Rightarrow> True | Some p \<Rightarrow> \<not> is_word p) then
        (case match_ticket_here (c # cs) of
           Some (t, rest) \<Rightarrow> t # match_tickets (Some (last t)) rest
         | None \<Rightarrow> match_tickets (Some c) cs)
      else match_tickets (Some c) cs)"
  by pat_completeness auto
termination
  by (relation "measure (\<lambda>(prev, s). length s)") (auto dest: match_ticket_here_shorter)

text \<open>The tickets of all messages, collected in a \<open>Set\<close> and then sorted.\<close>

definition extractJiraTickets :: "commit list \<Rightarrow> string list" where
  "extractJiraTickets commits =
     sort (foldl (\<lambda>tickets commit. foldl set_add tickets (match_tickets None (message commit)))
             [] commits)"

text \<open>\<open>if (jiraTickets.length > 0 && !summary.includes(jiraTickets[0]))\<close>: the ticket line is
  appended to a summary when there are tickets and the first one does not occur in it.\<close>

definition with_jira_tickets :: "string list \<Rightarrow> string \<Rightarrow> string" where
  "with_jira_tickets jiraTickets summary =
     (if length jiraTickets > 0 \<and> \<not> js_includes summary (jiraTickets ! 0)
      then summary @ NL @ NL @ ''Jira Tickets: '' @ join '', '' jiraTickets
      else summary)"

section \<open>Summaries\<close>

definition demo_point :: "string \<Rightarrow> string" where
  "demo_point msg =
     (let lower = toLowerCase msg in
      if js_includes lower ''feat'' then ''Implemented new features and functionality''
      else if js_includes lower ''fix'' then ''Fixed bugs and resolved issues''
      else if js_includes lower ''refactor'' then ''Improved code structure and performance''
      else if js_includes lower ''chore'' then ''Updated dependencies and maintenance tasks''
      else ''Made various improvements to the codebase'')"

definition generateDemoSummary :: "env \<Rightarrow> commit list \<Rightarrow> string" where
  "generateDemoSummary e commits =
     (let jiraTickets = extractJiraTickets commits;
          uniquePoints = unique_in_order (map (\<lambda>c. demo_point (message c)) commits);
          summary = date_relative_text e commits @ ''...'' @ NL
                    @ join NL (map (\<lambda>point. ''- '' @ point) uniquePoints)
      in if length jiraTickets > 0
         then summary @ NL @ NL @ ''Jira Tickets: '' @ join '', '' jiraTickets
         else summary)"

text \<open>The body of the \<open>try\<close> for one model: the call with its retries, the extraction of
  the text, and the ticket line.\<close>

definition attempt_model ::
  "env \<Rightarrow> string list \<Rightarrow> string \<Rightarrow> state \<Rightarrow> (api_error + string) \<times> state" where
  "attempt_model e jiraTickets modelName st =
     (case callWithRetries e modelName st of
        (Inl error, st') \<Rightarrow> (Inl error, st')
      | (Inr response, st') \<Rightarrow>
          if extractResponseText response = []
          then (Inl (new_Error ''Model returned an empty response.''), st')
          else (Inr (with_jira_tickets jiraTickets (extractResponseText response)), st'))"

definition failure_message :: "string \<Rightarrow> api_error \<Rightarrow> string" where
  "failure_message modelName error =
     ''Failed to generate summary with model '' @ modelName @ '': ''
     @ message_or error ''Unknown error'' @ ''. ''
     @ (if isQuotaOrPermissionError error
        then ''Check your Gemini API quota or select a different model with --model or GEMINI_MODEL.''
        else ''Make sure the Gemini model name is correct and your API key has access to it.'')"

text \<open>The loop over the models still to try, with the errors collected so far;
  \<open>fallbackAvailable\<close>, that is \<open>i < modelList.length - 1\<close>, says that a model remains.
  The first equation is the throw after the loop.\<close>

fun try_models ::
  "env \<Rightarrow> string list \<Rightarrow> string list \<Rightarrow> (string \<times> string) list \<Rightarrow> state
   \<Rightarrow> (error + string \<times> string option) \<times> state" where
  "try_models e jiraTickets [] errors st =
     (Inl (AggregateFailure (formatAggregateError errors)), st)"
| "try_models e jiraTickets (modelName # rest) errors st =
     (case attempt_model e jiraTickets modelName st of
        (Inr summary, st') \<Rightarrow> (Inr (summary, Some modelName), st')
      | (Inl error, st') \<Rightarrow>
          if rest \<noteq> [] \<and> shouldFallbackToNextModel error
          then try_models e jiraTickets rest
                 (errors @ [(modelName, message_or error ''Unknown error'')]) st'
          else (Inl (ModelFailed (failure_message modelName error)), st'))"

text \<open>The test for a missing client comes after the return for demo mode.\<close>

definition generateSummary ::
  "env \<Rightarrow> commit list \<Rightarrow> state \<Rightarrow> (error + string \<times> string option) \<times> state" where
  "generateSummary e commits st =
     (if length commits = 0 then (Inr (''No commits found for the specified period.'', None), st)
      else if demoMode e then (Inr (generateDemoSummary e commits, Some ''demo''), st)
      else if \<not> aiClient e then (Inl ClientNotInitialized, st)
      else case getResolvedModelPreference e st of
             (modelList, st') \<Rightarrow>
               if length modelList = 0 then (Inl NoModelsAvailable, st')
               else try_models e (extractJiraTickets commits) modelList [] st')"

section \<open>The run\<close>

definition getGitUser :: "env \<Rightarrow> error + string \<times> string" where
  "getGitUser e =
     (case git_user_name e of
        ExecFail _ \<Rightarrow> Inl GitUserConfigError
      | ExecOk name \<Rightarrow>
          (case git_user_email e of
             ExecFail _ \<Rightarrow> Inl GitUserConfigError
           | ExecOk email \<Rightarrow> Inr (trim name, trim email)))"

definition getCurrentBranch :: "env \<Rightarrow> error + string" where
  "getCurrentBranch e =
     (case rev_parse e of
        ExecOk stdout \<Rightarrow> Inr (trim stdout)
      | ExecFail err \<Rightarrow>
          if stderr_includes err ''not a git repository'' then Inl NotAGitRepository
          else Inl CurrentBranchError)"

definition getRecentLocalBranches :: "env \<Rightarrow> string \<Rightarrow> nat \<Rightarrow> string list" where
  "getRecentLocalBranches e excludeBranch limit =
     (if limit = 0 then []
      else case for_each_ref e of
             ExecFail _ \<Rightarrow> []
           | ExecOk stdout \<Rightarrow>
               if trim stdout = [] then []
               else take limit
                      (filter (\<lambda>branch. branch \<noteq> [] \<and> branch \<noteq> excludeBranch)
                         (map (\<lambda>line. hd (split ''|'' line)) (split NL (trim stdout)))))"

text \<open>How a run ends: with an error message and exit status 1, with the notice that no
  commit was found, with the raw commits only (demo mode), or with the printed summary and
  the model that produced it.\<close>

datatype outcome =
    Exit1 error
  | NoCommitsFound
  | RawCommitsOnly "commit list"
  | Summary string "string option"

definition main :: "env \<Rightarrow> state \<Rightarrow> outcome \<times> state" where
  "main e st =
     (case getGitUser e of
        Inl err \<Rightarrow> (Exit1 err, st)
      | Inr user \<Rightarrow>
          (case getCurrentBranch e of
             Inl err \<Rightarrow> (Exit1 err, st)
           | Inr currentBranch \<Rightarrow>
               (case fetchCommits (git_log e)
                       (Some (unique_in_order
                          (currentBranch # getRecentLocalBranches e currentBranch (recentBranchesCount e)))) of
                  Inl err \<Rightarrow> (Exit1 err, st)
                | Inr commits \<Rightarrow>
                    if length commits = 0 then (NoCommitsFound, st)
                    else if \<not> demoMode e then
                      (case generateSummary e commits st of
                         (Inl err, st') \<Rightarrow> (Exit1 err, st')
                       | (Inr (summary, modelName), st') \<Rightarrow> (Summary summary modelName, st'))
                    else (RawCommitsOnly commits, st))))"


section \<open>Vocabulary of the properties\<close>

text \<open>What the scan of one branch contributes: the parsed blocks of its output, and nothing
  when the query is rejected.\<close>

definition branch_entries :: "(string \<Rightarrow> exec_result) \<Rightarrow> string \<Rightarrow> (string \<times> string \<times> string) list" where
  "branch_entries query b =
     (case query b of
        ExecOk stdout \<Rightarrow> List.map_filter parse_block (commit_blocks stdout)
      | ExecFail _ \<Rightarrow> [])"

text \<open>The hash is observed on the branch: some parsed block of its output carries it.\<close>

definition observed :: "(string \<Rightarrow> exec_result) \<Rightarrow> string \<Rightarrow> string \<Rightarrow> bool" where
  "observed query b h = list_ex (\<lambda>p. fst p = h) (branch_entries query b)"

text \<open>The query of the branch is rejected with an error that the inner handler rethrows.\<close>

definition aborts :: "(string \<Rightarrow> exec_result) \<Rightarrow> string \<Rightarrow> bool" where
  "aborts query b =
     (case query b of
        ExecFail err \<Rightarrow> \<not> stderr_includes err ''unknown revision or path''
      | ExecOk _ \<Rightarrow> False)"

text \<open>All sightings \<open>(branch, hash, date, message)\<close>, in scan order; the first sighting
  of a hash.\<close>

definition sightings ::
  "(string \<Rightarrow> exec_result) \<Rightarrow> string list \<Rightarrow> (string \<times> string \<times> string \<times> string) list" where
  "sightings query bs = concat (map (\<lambda>b. map (Pair b) (branch_entries query b)) bs)"

definition first_sighting ::
  "(string \<Rightarrow> exec_result) \<Rightarrow> string list \<Rightarrow> string \<Rightarrow> (string \<times> string \<times> string \<times> string) option" where
  "first_sighting query bs h = find (\<lambda>s. fst (snd s) = h) (sightings query bs)"

text \<open>The fold of \<open>record_sighting\<close> over sightings, and the entry of a hash in the
  map.\<close>

definition aggregate :: "commit list \<Rightarrow> (string \<times> string \<times> string \<times> string) list \<Rightarrow> commit list" where
  "aggregate m ss = foldl (\<lambda>m (b, p). record_sighting b m p) m ss"

definition entry :: "commit list \<Rightarrow> string \<Rightarrow> commit option" where
  "entry m h = find (\<lambda>c. hash c = h) m"


text \<open>\<open>a\<close> occurs in the list and \<open>b\<close> occurs after it.\<close>

definition ranks_above :: "string list \<Rightarrow> string \<Rightarrow> string \<Rightarrow> bool" where
  "ranks_above xs a b = (a \<noteq> b \<and> a \<in> set xs \<and> b \<in> set (dropWhile (\<lambda>x. x \<noteq> a) xs))"

definition list_calls :: "event list \<Rightarrow> nat" where
  "list_calls tr = length (filter (\<lambda>ev. ev = ListModels) tr)"

text \<open>The pattern, in the words of the specification: upper-case letters, a dash, digits.\<close>

definition ticket_shape :: "string \<Rightarrow> bool" where
  "ticket_shape t =
     (\<exists>letters digits. t = letters @ ''-'' @ digits \<and> letters \<noteq> [] \<and> digits \<noteq> []
        \<and> (\<forall>c\<in>set letters. is_upper c) \<and> (\<forall>c\<in>set digits. is_digit c))"

text \<open>\<open>\b\<close> between the text \<open>left\<close> and the text \<open>right\<close>: exactly one of the two code
  units around the position is of class \<open>\w\<close> (an edge of the string counts as not).\<close>

definition word_boundary :: "string \<Rightarrow> string \<Rightarrow> bool" where
  "word_boundary left right =
     ((left \<noteq> [] \<and> is_word (last left)) \<noteq> (right \<noteq> [] \<and> is_word (hd right)))"

text \<open>The text \<open>t\<close> is a substring of the message that has the shape of a ticket and
  stands between two word boundaries.\<close>

definition ticket_occurrence :: "string \<Rightarrow> string \<Rightarrow> bool" where
  "ticket_occurrence msg t =
     (\<exists>before after. msg = before @ t @ after \<and> ticket_shape t
        \<and> word_boundary before (t @ after) \<and> word_boundary (before @ t) after)"

text \<open>The code unit before the current position is of class \<open>\w\<close>.\<close>

definition word_before :: "char option \<Rightarrow> bool" where
  "word_before prev = (case prev of None \<Rightarrow> False | Some p \<Rightarrow> is_word p)"

text \<open>The tickets that occur in \<open>s\<close>, when \<open>s\<close> follows the code unit \<open>prev\<close>.\<close>

definition occurrences :: "char option \<Rightarrow> string \<Rightarrow> string set" where
  "occurrences prev s =
     {t. \<exists>p r. s = p @ t @ r \<and> ticket_shape t
           \<and> \<not> word_before (if p = [] then prev else Some (last p))
           \<and> \<not> (r \<noteq> [] \<and> is_word (hd r))}"

text \<open>The generation requests of a trace.\<close>

definition generate_calls :: "event list \<Rightarrow> event list" where
  "generate_calls tr = filter (\<lambda>ev. case ev of GenerateContent _ \<Rightarrow> True | _ \<Rightarrow> False) tr"

section \<open>Example inputs\<close>

definition ex_out_main :: string where
  "ex_out_main =
     ''a1f3'' @ NL @ ''2024-03-04'' @ NL @ ''feat: add login PROJ-12'' @ NL @ ''uses JWT'' @ NL
     @ NL @ ''---COMMIT_SEPARATOR---'' @ NL @ NL
     @ ''b2e4'' @ NL @ ''2024-03-04'' @ NL @ ''fix: typo'' @ NL
     @ NL @ ''---COMMIT_SEPARATOR---'' @ NL"

definition ex_out_feature :: string where
  "ex_out_feature =
     ''c3d5'' @ NL @ ''2024-03-05'' @ NL @ ''chore: bump deps'' @ NL
     @ NL @ ''---COMMIT_SEPARATOR---'' @ NL @ NL
     @ ''a1f3'' @ NL @ ''2024-03-04'' @ NL @ ''feat: add login PROJ-12'' @ NL @ ''uses JWT'' @ NL
     @ NL @ ''---COMMIT_SEPARATOR---'' @ NL"

definition ex_query :: "string \<Rightarrow> exec_result" where
  "ex_query b =
     (if b = ''main'' then ExecOk ex_out_main
      else if b = ''feature'' then ExecOk ex_out_feature
      else if b = ''gone'' then
        ExecFail (Some ''fatal: ambiguous argument: unknown revision or path not in the working tree.'')
      else ExecFail (Some ''fatal: bad revision''))"

definition ex_error_503 :: api_error where
  "ex_error_503 = \<lparr>err_status = Some (JNum 503), err_code = None, err_cause_status = None,
                    err_response_status = None, err_message = Some ''overloaded''\<rparr>"

definition ex_response :: "response option" where
  "ex_response = Some \<lparr>resp_text = Some ''Yesterday, I shipped the login.'', resp_candidates = []\<rparr>"

definition ex_blank_response :: "response option" where
  "ex_blank_response = Some \<lparr>resp_text = Some '' '', resp_candidates = [[None, Some '''']]\<rparr>"

definition ex_env :: env where
  "ex_env = \<lparr>demoMode = False, requestedModel = None, recentBranchesCount = 3,
             git_user_name = ExecOk ''Dev'', git_user_email = ExecOk ''dev@example.org'',
             rev_parse = ExecOk ''main'',
             for_each_ref = ExecOk (''main|1709600000'' @ NL @ ''feature|1709500000''),
             git_log = ex_query,
             date_relative_text = (\<lambda>commits. ''Yesterday, I''),
             models_list = (\<lambda>tr. Some [Some ''gemini-1.5-flash'', Some ''gemini-2.5-flash-preview'',
                                       Some ''gemini-2.5-pro'']),
             generate_content = (\<lambda>tr model. Inr ex_response)\<rparr>"

text \<open>Two usable models are listed; every request is answered with status 503.\<close>

definition ex_env_down :: env where
  "ex_env_down = ex_env\<lparr>models_list := (\<lambda>tr. Some [Some ''models/gemini-1.5-flash'',
                                                     Some ''models/gemini-2.5-flash'']),
                         generate_content := (\<lambda>tr model. Inl ex_error_503)\<rparr>"

text \<open>The first two requests are answered with status 503, the later ones with a summary.\<close>

definition ex_env_flaky :: env where
  "ex_env_flaky = ex_env_down\<lparr>generate_content :=
     (\<lambda>tr model. if length (generate_calls tr) < 2 then Inl ex_error_503 else Inr ex_response)\<rparr>"

text \<open>The best model answers with blank text.\<close>

definition ex_env_blank :: env where
  "ex_env_blank = ex_env_down\<lparr>generate_content :=
     (\<lambda>tr model. if model = ''gemini-2.5-flash'' then Inr ex_blank_response else Inr ex_response)\<rparr>"

text \<open>The listing of models fails.\<close>

definition ex_env_no_listing :: env where
  "ex_env_no_listing = ex_env\<lparr>models_list := (\<lambda>tr. None)\<rparr>"

text \<open>Outside a working tree, with and without a configured author identity.\<close>

definition ex_env_no_repo :: env where
  "ex_env_no_repo = ex_env\<lparr>rev_parse :=
     ExecFail (Some ''fatal: not a git repository (or any of the parent directories): .git'')\<rparr>"

definition ex_env_no_repo_no_user :: env where
  "ex_env_no_repo_no_user = ex_env_no_repo\<lparr>git_user_name := ExecFail (Some [])\<rparr>"

text \<open>The answer mentions a ticket.\<close>

definition ex_env_mentions :: env where
  "ex_env_mentions = ex_env\<lparr>generate_content := (\<lambda>tr model.
     Inr (Some \<lparr>resp_text = Some ''Yesterday, I closed AB-7.'', resp_candidates = []\<rparr>))\<rparr>"

definition ex_commits :: "commit list" where
  "ex_commits = [\<lparr>message = ''feat: add login PROJ-12'', date = ''2024-03-04'', hash = ''a1f3'',
                   branches = [''main'']\<rparr>]"

definition ex_ticket_commits :: "commit list" where
  "ex_ticket_commits =
     [\<lparr>message = ''fix PROJ-12 and AB-7'', date = ''2024-03-04'', hash = ''a1f3'',
        branches = [''main'']\<rparr>,
      \<lparr>message = ''PROJ-12: follow-up, see xAB-9 and CD-3x'', date = ''2024-03-05'', hash = ''b2e4'',
        branches = [''main'']\<rparr>]"

section \<open>Properties of the aggregation\<close>

lemma commit_blocks_blank:
  assumes "trim stdout = []"
  shows "commit_blocks stdout = []"
proof -
  have "split (COMMIT_SEPARATOR @ NL) [] = [[]]"
    by (simp add: split.simps)
  moreover have "trim [] = []"
    by (simp add: trim_def)
  ultimately show ?thesis
    unfolding commit_blocks_def assms by simp
qed

lemma foldl_scan_block:
  "foldl (scan_block b) m blocks = foldl (record_sighting b) m (List.map_filter parse_block blocks)"
  by (induction blocks arbitrary: m) (auto simp: scan_block_def List.map_filter_simps split: option.splits)

lemma aggregate_append: "aggregate m (xs @ ys) = aggregate (aggregate m xs) ys"
  by (simp add: aggregate_def)

lemma aggregate_one_branch:
  "aggregate m (map (Pair b) ps) = foldl (record_sighting b) m ps"
  by (induction ps arbitrary: m) (simp_all add: aggregate_def)

lemma scan_branches_aggregate:
  "\<forall>b\<in>set bs. \<not> aborts query b \<Longrightarrow>
   scan_branches query bs m = Inr (aggregate m (sightings query bs))"
proof (induction bs arbitrary: m)
  case Nil
  then show ?case by (simp add: sightings_def aggregate_def)
next
  case (Cons b bs)
  then have rest: "\<And>m'. scan_branches query bs m' = Inr (aggregate m' (sightings query bs))"
    by simp
  have unfold: "sightings query (b # bs) = map (Pair b) (branch_entries query b) @ sightings query bs"
    by (simp add: sightings_def)
  show ?case
  proof (cases "query b")
    case (ExecOk stdout)
    then show ?thesis
      by (simp add: rest unfold aggregate_append aggregate_one_branch branch_entries_def
            foldl_scan_block commit_blocks_blank List.map_filter_simps)
  next
    case (ExecFail err)
    with Cons.prems have "stderr_includes err ''unknown revision or path''"
      by (simp add: aborts_def)
    with ExecFail show ?thesis
      by (simp add: rest unfold aggregate_append aggregate_one_branch branch_entries_def)
  qed
qed

lemma find_append_none: "\<not> list_ex P xs \<Longrightarrow> find P (xs @ ys) = find P ys"
  by (induction xs) auto

lemma find_append_cases:
  "find P (xs @ ys) = (case find P xs of None \<Rightarrow> find P ys | Some x \<Rightarrow> Some x)"
  by (induction xs) auto

lemma find_SomeD: "find P xs = Some x \<Longrightarrow> P x \<and> x \<in> set xs"
  by (induction xs) (auto split: if_splits)

lemma find_map_same: "(\<And>x. P (f x) = P x) \<Longrightarrow> find P (map f xs) = map_option f (find P xs)"
  by (induction xs) auto

lemma entry_record_sighting:
  "entry (record_sighting b m (h', d, msg)) h =
     (if h = h' then
        (case entry m h of
           None \<Rightarrow> Some \<lparr>message = msg, date = d, hash = h, branches = [b]\<rparr>
         | Some c \<Rightarrow> Some (c\<lparr>branches := set_add (branches c) b\<rparr>))
      else entry m h)"
proof (cases "list_ex (\<lambda>c. hash c = h') m")
  case False
  then have none: "entry m h' = None"
    by (simp add: entry_def find_None_iff list_ex_iff)
  show ?thesis
  proof (cases "h = h'")
    case True
    with False none show ?thesis
      by (simp add: record_sighting_def entry_def find_append_none)
  next
    case False
    note neq = this
    with \<open>\<not> list_ex (\<lambda>c. hash c = h') m\<close> show ?thesis
      by (cases "find (\<lambda>c. hash c = h) m")
         (simp_all add: record_sighting_def entry_def find_append_cases)
  qed
next
  case True
  let ?g = "\<lambda>c. if hash c = h' then c\<lparr>branches := set_add (branches c) b\<rparr> else c"
  have eq: "entry (record_sighting b m (h', d, msg)) h = map_option ?g (entry m h)"
    using True by (simp add: record_sighting_def entry_def find_map_same)
  show ?thesis
  proof (cases "entry m h")
    case None
    with eq have "entry (record_sighting b m (h', d, msg)) h = None"
      by simp
    moreover have "h \<noteq> h'"
      using None True by (auto simp: entry_def find_None_iff list_ex_iff)
    ultimately show ?thesis
      using None by simp
  next
    case (Some c)
    then have "hash c = h" by (auto simp: entry_def find_Some_iff)
    with Some eq show ?thesis by auto
  qed
qed


lemma set_foldl_set_add: "set (foldl set_add xs ys) = set xs \<union> set ys"
  by (induction ys arbitrary: xs) (auto simp: set_add_def)

lemma distinct_set_add: "distinct xs \<Longrightarrow> distinct (set_add xs x)"
  by (simp add: set_add_def)

lemma distinct_hash_record_sighting:
  "distinct (map hash m) \<Longrightarrow> distinct (map hash (record_sighting b m p))"
proof -
  assume d: "distinct (map hash m)"
  obtain h dt msg where p: "p = (h, dt, msg)" by (cases p)
  have same: "map hash (map (\<lambda>c. if hash c = h then c\<lparr>branches := set_add (branches c) b\<rparr> else c) m)
              = map hash m"
    by (induction m) auto
  show ?thesis
    using d unfolding p record_sighting_def
    by (auto simp: same list_ex_iff simp del: map_map)
qed

lemma distinct_hash_aggregate:
  "distinct (map hash m) \<Longrightarrow> distinct (map hash (aggregate m ss))"
  by (induction ss arbitrary: m) (auto simp: aggregate_def distinct_hash_record_sighting)

lemma sighting_branches_Cons:
  "{b. \<exists>d msg. (b, h, d, msg) \<in> set ((b1, h1, d1, m1) # ss)} =
     (if h1 = h then insert b1 {b. \<exists>d msg. (b, h, d, msg) \<in> set ss}
      else {b. \<exists>d msg. (b, h, d, msg) \<in> set ss})"
  by auto

text \<open>Once a hash has its entry, later sightings only add branches to it.\<close>

lemma aggregate_known_hash:
  "entry m h = Some c \<Longrightarrow>
   \<exists>c'. entry (aggregate m ss) h = Some c' \<and> message c' = message c \<and> date c' = date c
        \<and> hash c' = hash c
        \<and> set (branches c') = set (branches c) \<union> {b. \<exists>d msg. (b, h, d, msg) \<in> set ss}
        \<and> (distinct (branches c) \<longrightarrow> distinct (branches c'))"
proof (induction ss arbitrary: m c)
  case Nil
  then show ?case by (simp add: aggregate_def)
next
  case (Cons s ss)
  obtain b h' d msg where s: "s = (b, h', d, msg)" by (cases s)
  have step: "aggregate m ((b, h', d, msg) # ss) = aggregate (record_sighting b m (h', d, msg)) ss"
    by (simp add: aggregate_def)
  show ?case
  proof (cases "h = h'")
    case True
    let ?c1 = "c\<lparr>branches := set_add (branches c) b\<rparr>"
    have "entry (record_sighting b m (h', d, msg)) h = Some ?c1"
      using Cons.prems True by (simp add: entry_record_sighting)
    from Cons.IH [OF this] obtain c' where
      "entry (aggregate (record_sighting b m (h', d, msg)) ss) h = Some c'"
      "message c' = message c" "date c' = date c" "hash c' = hash c"
      "set (branches c') = set (branches ?c1) \<union> {b. \<exists>d msg. (b, h, d, msg) \<in> set ss}"
      "distinct (branches ?c1) \<longrightarrow> distinct (branches c')"
      by auto
    then show ?thesis
      unfolding s step sighting_branches_Cons using True
      by (auto simp: set_add_def split: if_splits)
  next
    case False
    have "entry (record_sighting b m (h', d, msg)) h = Some c"
      using Cons.prems False by (simp add: entry_record_sighting)
    from Cons.IH [OF this] show ?thesis
      unfolding s step sighting_branches_Cons using False by simp
  qed
qed

text \<open>The first sighting of a hash creates its entry.\<close>

lemma aggregate_new_hash:
  "entry m h = None \<Longrightarrow> find (\<lambda>s. fst (snd s) = h) ss = Some (b0, h0, d0, msg0) \<Longrightarrow>
   \<exists>c'. entry (aggregate m ss) h = Some c' \<and> message c' = msg0 \<and> date c' = d0 \<and> hash c' = h
        \<and> set (branches c') = {b. \<exists>d msg. (b, h, d, msg) \<in> set ss}
        \<and> distinct (branches c')"
proof (induction ss arbitrary: m)
  case Nil
  then show ?case by simp
next
  case (Cons s ss)
  obtain b h' d msg where s: "s = (b, h', d, msg)" by (cases s)
  have step: "aggregate m ((b, h', d, msg) # ss) = aggregate (record_sighting b m (h', d, msg)) ss"
    by (simp add: aggregate_def)
  show ?case
  proof (cases "h = h'")
    case True
    with Cons.prems(2) have first: "b0 = b" "d0 = d" "msg0 = msg"
      by (simp_all add: s)
    let ?c1 = "\<lparr>message = msg, date = d, hash = h, branches = [b]\<rparr>"
    have "entry (record_sighting b m (h', d, msg)) h = Some ?c1"
      using Cons.prems(1) True by (simp add: entry_record_sighting)
    from aggregate_known_hash [OF this, of ss] show ?thesis
      unfolding s step sighting_branches_Cons using True first by simp
  next
    case False
    have "entry (record_sighting b m (h', d, msg)) h = None"
      using Cons.prems(1) False by (simp add: entry_record_sighting)
    moreover have "find (\<lambda>s. fst (snd s) = h) ss = Some (b0, h0, d0, msg0)"
      using Cons.prems(2) False by (simp add: s)
    ultimately show ?thesis
      using Cons.IH unfolding s step sighting_branches_Cons using False by simp
  qed
qed


lemma sightings_branches:
  "{b. \<exists>d msg. (b, h, d, msg) \<in> set (sightings query bs)} = {b \<in> set bs. observed query b h}"
proof -
  have "(b, h, d, msg) \<in> set (sightings query bs) \<longleftrightarrow>
          b \<in> set bs \<and> (h, d, msg) \<in> set (branch_entries query b)" for b d msg
    by (auto simp: sightings_def)
  then have "{b. \<exists>d msg. (b, h, d, msg) \<in> set (sightings query bs)} =
               {b \<in> set bs. \<exists>d msg. (h, d, msg) \<in> set (branch_entries query b)}"
    by simp
  moreover have "(\<exists>d msg. (h, d, msg) \<in> set (branch_entries query b)) = observed query b h" for b
    unfolding observed_def list_ex_iff by force
  ultimately show ?thesis
    by simp
qed

lemma filter_unique_key:
  "distinct (map f xs) \<Longrightarrow> find (\<lambda>x. f x = k) xs = Some x \<Longrightarrow> filter (\<lambda>x. f x = k) xs = [x]"
proof (induction xs)
  case Nil
  then show ?case by simp
next
  case (Cons y ys)
  show ?case
  proof (cases "f y = k")
    case True
    with Cons.prems have "x = y" and "\<forall>z\<in>set ys. f z \<noteq> k"
      by (auto simp: image_iff)
    with True show ?thesis by (simp add: filter_empty_conv)
  next
    case False
    with Cons show ?thesis by simp
  qed
qed

lemma sort_two:
  fixes a b :: string
  assumes "distinct xs" and "set xs = {a, b}" and "a < b"
  shows "sort xs = [a, b]"
proof -
  have "sorted (sort xs)" and "distinct (sort xs)" and "set (sort xs) = set [a, b]"
    using assms by simp_all
  moreover have "sorted [a, b]" and "distinct [a, b]"
    using assms(3) by auto
  ultimately show ?thesis
    by (metis sorted_distinct_set_unique)
qed


text \<open>
  Claim C1, as the code has it. Let the scan of every branch in the list return (with
  output, or skipped as not found), and let the hash \<open>H\<close> be observed on exactly the two
  scanned branches \<open>A\<close> and \<open>B\<close>, named so that \<open>A < B\<close>. Then \<open>fetchCommits\<close> returns
  a list with exactly one entry for \<open>H\<close>; its message and date are those parsed at the
  first sighting in scan order, and its branches are \<open>[A, B]\<close>. The list \<open>bs\<close> is
  arbitrary, so this holds in whatever order the branches are scanned.
\<close>

theorem fetchCommits_shared_hash:
  assumes ok: "\<forall>b\<in>set bs. \<not> aborts query b"
      and A: "A \<in> set bs" and B: "B \<in> set bs" and AB: "A < B"
      and obs: "\<forall>b\<in>set bs. observed query b H = (b = A \<or> b = B)"
  shows "\<exists>cs c b d. fetchCommits query (Some bs) = Inr cs
           \<and> filter (\<lambda>c. hash c = H) cs = [c] \<and> hash c = H \<and> branches c = [A, B]
           \<and> first_sighting query bs H = Some (b, H, d, message c) \<and> date c = d"
proof -
  let ?ss = "sightings query bs"
  let ?m = "aggregate [] ?ss"
  let ?cs = "map (\<lambda>c. c\<lparr>branches := sort (branches c)\<rparr>) ?m"
  from A have "bs \<noteq> []" by auto
  with ok have run: "fetchCommits query (Some bs) = Inr ?cs"
    by (simp add: fetchCommits_def scan_branches_aggregate)
  have on: "{b. \<exists>d msg. (b, H, d, msg) \<in> set ?ss} = {A, B}"
    unfolding sightings_branches using A B obs by auto
  then have "A \<in> {b. \<exists>d msg. (b, H, d, msg) \<in> set ?ss}"
    by simp
  then obtain d1 m1 where "(A, H, d1, m1) \<in> set ?ss"
    by blast
  then have "\<exists>s\<in>set ?ss. fst (snd s) = H"
    by (intro bexI [of _ "(A, H, d1, m1)"]) simp_all
  then obtain s where s: "find (\<lambda>s. fst (snd s) = H) ?ss = Some s"
    by (cases "find (\<lambda>s. fst (snd s) = H) ?ss") (auto simp: find_None_iff)
  obtain b0 h0 d0 msg0 where s': "s = (b0, h0, d0, msg0)"
    by (cases s)
  from find_SomeD [OF s] have h0: "h0 = H"
    by (simp add: s')
  have "entry [] H = None"
    by (simp add: entry_def)
  from aggregate_new_hash [OF this s [unfolded s']] obtain c' where c':
    "entry ?m H = Some c'" "message c' = msg0" "date c' = d0" "hash c' = H"
    "set (branches c') = {A, B}" "distinct (branches c')"
    unfolding on by auto
  let ?c = "c'\<lparr>branches := sort (branches c')\<rparr>"
  have "find (\<lambda>c. hash c = H) ?cs = Some ?c"
    using c'(1) by (simp add: entry_def find_map_same)
  moreover have "distinct (map hash ?cs)"
    using distinct_hash_aggregate [of "[]" ?ss] by (simp add: comp_def)
  ultimately have one: "filter (\<lambda>c. hash c = H) ?cs = [?c]"
    by (rule filter_unique_key [rotated])
  have "branches ?c = [A, B]"
    using c'(5,6) AB by (simp add: sort_two)
  moreover have "first_sighting query bs H = Some (b0, H, d0, message ?c)"
    using s s' h0 c'(2) by (simp add: first_sighting_def)
  ultimately show ?thesis
    using run one c'(3,4) by (intro exI [of _ ?cs] exI [of _ ?c] exI [of _ b0] exI [of _ d0]) simp
qed


theorem fetchCommits_shared_hash_witness:
  "\<not> aborts ex_query ''main'' \<and> \<not> aborts ex_query ''gone'' \<and> \<not> aborts ex_query ''feature''
   \<and> ''feature'' < ''main''
   \<and> observed ex_query ''main'' ''a1f3'' \<and> observed ex_query ''feature'' ''a1f3''
   \<and> \<not> observed ex_query ''gone'' ''a1f3''
   \<and> (\<exists>cs c b d. fetchCommits ex_query (Some [''main'', ''gone'', ''feature'']) = Inr cs
           \<and> filter (\<lambda>c. hash c = ''a1f3'') cs = [c] \<and> hash c = ''a1f3''
           \<and> branches c = [''feature'', ''main'']
           \<and> first_sighting ex_query [''main'', ''gone'', ''feature''] ''a1f3''
               = Some (b, ''a1f3'', d, message c)
           \<and> date c = d)"
proof -
  have h1: "\<forall>b\<in>set [''main'', ''gone'', ''feature'']. \<not> aborts ex_query b"
    by code_simp
  have h2: "''feature'' \<in> set [''main'', ''gone'', ''feature'']"
    and h3: "''main'' \<in> set [''main'', ''gone'', ''feature'']"
    by simp_all
  have h4: "''feature'' < ''main''"
    by code_simp
  have h5: "\<forall>b\<in>set [''main'', ''gone'', ''feature''].
              observed ex_query b ''a1f3'' = (b = ''feature'' \<or> b = ''main'')"
    by code_simp
  have h6: "\<not> aborts ex_query ''main'' \<and> \<not> aborts ex_query ''gone'' \<and> \<not> aborts ex_query ''feature''"
    by code_simp
  have h7: "observed ex_query ''main'' ''a1f3'' \<and> observed ex_query ''feature'' ''a1f3''
            \<and> \<not> observed ex_query ''gone'' ''a1f3''"
    by code_simp
  from fetchCommits_shared_hash [OF h1 h2 h3 h4 h5] h4 h6 h7 show ?thesis
    by (intro conjI) (erule conjunct1 conjunct2 | erule conjunct2 [THEN conjunct1] | erule conjunct2 [THEN conjunct2] | assumption)+
qed

text \<open>Without the condition on the scans the claim fails: the hash is observed on two
  scanned branches, the query of a third one is rejected, and no entry is returned, in
  either scan order.\<close>

theorem fetchCommits_shared_hash_counterexample:
  "observed ex_query ''main'' ''a1f3'' \<and> observed ex_query ''feature'' ''a1f3''
   \<and> \<not> observed ex_query ''broken'' ''a1f3''
   \<and> aborts ex_query ''broken''
   \<and> fetchCommits ex_query (Some [''main'', ''feature'', ''broken'']) = Inr []
   \<and> fetchCommits ex_query (Some [''broken'', ''feature'', ''main'']) = Inr []"
  by code_simp

text \<open>A single scanned branch is the only provenance.\<close>

lemma foldl_record_single_branch:
  "\<forall>c\<in>set m. branches c = [b] \<Longrightarrow> \<forall>c\<in>set (foldl (record_sighting b) m ps). branches c = [b]"
proof (induction ps arbitrary: m)
  case Nil
  then show ?case by simp
next
  case (Cons p ps)
  obtain h d msg where p: "p = (h, d, msg)" by (cases p)
  have "\<forall>c\<in>set (record_sighting b m p). branches c = [b]"
    using Cons.prems by (auto simp: p record_sighting_def set_add_def)
  from Cons.IH [OF this] show ?case by simp
qed

lemma fetchCommits_single_branch:
  "fetchCommits query (Some [b]) = Inr cs \<Longrightarrow> \<forall>c\<in>set cs. branches c = [b]"
proof -
  assume run: "fetchCommits query (Some [b]) = Inr cs"
  have all: "\<forall>c\<in>set (foldl (record_sighting b) [] ps). branches c = [b]" for ps
    by (rule foldl_record_single_branch) simp
  show ?thesis
  proof (cases "query b")
    case (ExecOk stdout)
    with run all [of "List.map_filter parse_block (commit_blocks stdout)"] show ?thesis
      by (auto simp: fetchCommits_def foldl_scan_block split: if_splits)
  next
    case (ExecFail err)
    with run show ?thesis
      by (auto simp: fetchCommits_def split: if_splits)
  qed
qed


text \<open>
  Claim C9. With an empty or absent branch list, \<open>fetchCommits\<close> scans the single
  pseudo-branch \<open>HEAD\<close>: it behaves as on the list \<open>[HEAD]\<close>, and every commit it returns
  has \<open>HEAD\<close> as its sole branch.
\<close>

theorem fetchCommits_default_HEAD:
  "fetchCommits query None = fetchCommits query (Some [''HEAD''])
   \<and> fetchCommits query (Some []) = fetchCommits query (Some [''HEAD''])
   \<and> (\<forall>cs. fetchCommits query (Some []) = Inr cs \<longrightarrow> (\<forall>c\<in>set cs. branches c = [''HEAD'']))
   \<and> (\<forall>cs. fetchCommits query None = Inr cs \<longrightarrow> (\<forall>c\<in>set cs. branches c = [''HEAD'']))"
proof -
  have a: "fetchCommits query None = fetchCommits query (Some [''HEAD''])"
    by (simp add: fetchCommits_def)
  have b: "fetchCommits query (Some []) = fetchCommits query (Some [''HEAD''])"
    by (simp add: fetchCommits_def)
  show ?thesis
    unfolding a b using fetchCommits_single_branch [of query "''HEAD''"] by blast
qed

theorem fetchCommits_default_HEAD_witness:
  "fetchCommits (\<lambda>b. ExecOk ex_out_main) None = fetchCommits (\<lambda>b. ExecOk ex_out_main) (Some [''HEAD''])
   \<and> fetchCommits (\<lambda>b. ExecOk ex_out_main) None
     = Inr [\<lparr>message = ''feat: add login PROJ-12'' @ NL @ NL @ ''uses JWT'', date = ''2024-03-04'',
              hash = ''a1f3'', branches = [''HEAD'']\<rparr>,
            \<lparr>message = ''fix: typo'' @ NL @ NL @ ''---COMMIT_SEPARATOR---'', date = ''2024-03-04'',
              hash = ''b2e4'', branches = [''HEAD'']\<rparr>]
   \<and> list_all (\<lambda>c. branches c = [''HEAD''])
        [\<lparr>message = ''feat: add login PROJ-12'' @ NL @ NL @ ''uses JWT'', date = ''2024-03-04'',
              hash = ''a1f3'', branches = [''HEAD'']\<rparr>,
            \<lparr>message = ''fix: typo'' @ NL @ NL @ ''---COMMIT_SEPARATOR---'', date = ''2024-03-04'',
              hash = ''b2e4'', branches = [''HEAD'']\<rparr>]"
proof -
  have run: "fetchCommits (\<lambda>b. ExecOk ex_out_main) None
     = Inr [\<lparr>message = ''feat: add login PROJ-12'' @ NL @ NL @ ''uses JWT'', date = ''2024-03-04'',
              hash = ''a1f3'', branches = [''HEAD'']\<rparr>,
            \<lparr>message = ''fix: typo'' @ NL @ NL @ ''---COMMIT_SEPARATOR---'', date = ''2024-03-04'',
              hash = ''b2e4'', branches = [''HEAD'']\<rparr>]"
    by code_simp
  note same = fetchCommits_default_HEAD [of "\<lambda>b. ExecOk ex_out_main", THEN conjunct1]
  note all = fetchCommits_default_HEAD [of "\<lambda>b. ExecOk ex_out_main",
      THEN conjunct2, THEN conjunct2, THEN conjunct2, THEN spec, THEN mp, OF run,
      folded list_all_iff]
  from same run all show ?thesis
    by (intro conjI)
qed

text \<open>A rejected query that is not the branch-not-found case ends the scan with its error.\<close>

lemma scan_branches_abort:
  "\<forall>b\<in>set pre. \<not> aborts query b \<Longrightarrow> query b = ExecFail err \<Longrightarrow>
   \<not> stderr_includes err ''unknown revision or path'' \<Longrightarrow>
   scan_branches query (pre @ b # post) m = Inl err"
proof (induction pre arbitrary: m)
  case Nil
  then show ?case by simp
next
  case (Cons p pre)
  then have "\<And>m'. scan_branches query (pre @ b # post) m' = Inl err"
    by simp
  with Cons.prems(1) show ?case
    by (cases "query p") (simp_all add: aborts_def)
qed

text \<open>
  Claim C2, as the code has it. When the history query of a scanned branch is rejected with
  an error that is not the branch-not-found case, and no earlier branch did so, the scan
  stops there: \<open>fetchCommits\<close> raises the fatal error when the error says
  \<open>fatal: not a git repository\<close>, and otherwise returns the empty list, whatever the
  earlier branches contributed and whatever the later branches hold.
\<close>

theorem fetchCommits_abort_discards:
  assumes "\<forall>b\<in>set pre. \<not> aborts query b"
      and "query b = ExecFail err"
      and "\<not> stderr_includes err ''unknown revision or path''"
  shows "fetchCommits query (Some (pre @ b # post)) =
           (if stderr_includes err ''fatal: not a git repository''
            then Inl NotAGitRepository else Inr [])"
  using scan_branches_abort [OF assms, of post "[]"]
  by (simp add: fetchCommits_def)

theorem fetchCommits_abort_discards_witness:
  "\<not> aborts ex_query ''main''
   \<and> ex_query ''broken'' = ExecFail (Some ''fatal: bad revision'')
   \<and> \<not> stderr_includes (Some ''fatal: bad revision'') ''unknown revision or path''
   \<and> \<not> stderr_includes (Some ''fatal: bad revision'') ''fatal: not a git repository''
   \<and> fetchCommits ex_query (Some ([''main''] @ ''broken'' # [''feature''])) = Inr []"
proof -
  have h0: "\<not> aborts ex_query ''main''"
    by code_simp
  then have h1: "\<forall>b\<in>set [''main'']. \<not> aborts ex_query b"
    by simp
  have h2: "ex_query ''broken'' = ExecFail (Some ''fatal: bad revision'')"
    by code_simp
  have h3: "\<not> stderr_includes (Some ''fatal: bad revision'') ''unknown revision or path''"
    by code_simp
  have h4: "\<not> stderr_includes (Some ''fatal: bad revision'') ''fatal: not a git repository''"
    by code_simp
  have "fetchCommits ex_query (Some ([''main''] @ ''broken'' # [''feature''])) = Inr []"
    unfolding fetchCommits_abort_discards [OF h1 h2 h3, of "[''feature'']"] using h4 by (rule if_not_P)
  with h0 h2 h3 h4 show ?thesis
    by (intro conjI)
qed

text \<open>The claim as the specification states it fails: the branch \<open>main\<close> alone yields
  commits, and they are lost when the query of a second branch is rejected.\<close>

theorem fetchCommits_abort_counterexample:
  "aborts ex_query ''broken''
   \<and> \<not> stderr_includes (Some ''fatal: bad revision'') ''fatal: not a git repository''
   \<and> fetchCommits ex_query (Some [''main'']) \<noteq> Inr []
   \<and> fetchCommits ex_query (Some [''main'', ''broken'']) = Inr []"
  by code_simp

section \<open>Properties of the run\<close>

text \<open>The generation fails only with its own errors.\<close>

lemma try_models_errors:
  "fst (try_models e tickets ms errors st) = Inl x \<Longrightarrow>
   (\<exists>msg. x = ModelFailed msg) \<or> (\<exists>msg. x = AggregateFailure msg)"
proof (induction ms arbitrary: errors st)
  case Nil
  then show ?case by auto
next
  case (Cons m ms)
  obtain res st1 where a: "attempt_model e tickets m st = (res, st1)"
    by (cases "attempt_model e tickets m st")
  show ?case
  proof (cases res)
    case (Inr s)
    with Cons.prems a show ?thesis by simp
  next
    case (Inl err)
    show ?thesis
    proof (cases "ms \<noteq> [] \<and> shouldFallbackToNextModel err")
      case True
      with Cons.prems a Inl have
        "fst (try_models e tickets ms (errors @ [(m, message_or err ''Unknown error'')]) st1) = Inl x"
        by simp
      then show ?thesis by (rule Cons.IH)
    next
      case False
      with Cons.prems a Inl show ?thesis by auto
    qed
  qed
qed

lemma generateSummary_errors:
  "fst (generateSummary e commits st) = Inl x \<Longrightarrow>
   x = ClientNotInitialized \<or> x = NoModelsAvailable
   \<or> (\<exists>msg. x = ModelFailed msg) \<or> (\<exists>msg. x = AggregateFailure msg)"
  by (auto simp: generateSummary_def split: if_splits prod.splits dest: try_models_errors [of _ _ _ "[]"])

text \<open>
  Claim C3, as the code has it. When the query for the current branch is rejected, as it is
  outside a git working tree, the run ends with exit status 1 before any commit is fetched.
  The error is the one for the git user configuration when the author identity cannot be
  read (it is read first), otherwise \<open>Not a Git repository\<close> when the error text says
  \<open>not a git repository\<close>, and otherwise the one for an undetermined current branch. Every
  run that ends with one of these three errors, wherever it is raised, leaves the state as
  it was: it makes no provider call (no model listing, no generation request).
\<close>

theorem main_without_repository:
  "(\<forall>err. rev_parse e = ExecFail err \<longrightarrow>
      main e st =
        (Exit1 (if getGitUser e = Inl GitUserConfigError then GitUserConfigError
                else if stderr_includes err ''not a git repository'' then NotAGitRepository
                else CurrentBranchError), st))
   \<and> (fst (main e st) = Exit1 NotAGitRepository \<or> fst (main e st) = Exit1 GitUserConfigError
        \<or> fst (main e st) = Exit1 CurrentBranchError \<longrightarrow>
      snd (main e st) = st \<and> provider_calls (trace (snd (main e st))) = provider_calls (trace st))"
proof -
  have user: "getGitUser e = Inl GitUserConfigError \<or> (\<exists>u. getGitUser e = Inr u)"
    by (auto simp: getGitUser_def split: exec_result.splits)
  have rejected: "\<forall>err. rev_parse e = ExecFail err \<longrightarrow>
      main e st =
        (Exit1 (if getGitUser e = Inl GitUserConfigError then GitUserConfigError
                else if stderr_includes err ''not a git repository'' then NotAGitRepository
                else CurrentBranchError), st)"
  proof (intro allI impI)
    fix err
    assume "rev_parse e = ExecFail err"
    then have branch: "getCurrentBranch e =
        Inl (if stderr_includes err ''not a git repository'' then NotAGitRepository
             else CurrentBranchError)"
      by (simp add: getCurrentBranch_def)
    show "main e st =
          (Exit1 (if getGitUser e = Inl GitUserConfigError then GitUserConfigError
                  else if stderr_includes err ''not a git repository'' then NotAGitRepository
                  else CurrentBranchError), st)"
      using user by (auto simp: main_def branch)
  qed
  have gen: "fst (generateSummary e commits st) \<noteq> Inl NotAGitRepository"
    "fst (generateSummary e commits st) \<noteq> Inl GitUserConfigError"
    "fst (generateSummary e commits st) \<noteq> Inl CurrentBranchError" for commits
    using generateSummary_errors [of e commits st] by auto
  have untouched: "fst (main e st) = Exit1 NotAGitRepository \<or> fst (main e st) = Exit1 GitUserConfigError
        \<or> fst (main e st) = Exit1 CurrentBranchError \<longrightarrow>
      snd (main e st) = st \<and> provider_calls (trace (snd (main e st))) = provider_calls (trace st)"
  proof
    assume config: "fst (main e st) = Exit1 NotAGitRepository
        \<or> fst (main e st) = Exit1 GitUserConfigError \<or> fst (main e st) = Exit1 CurrentBranchError"
    have "snd (main e st) = st"
    proof (rule ccontr)
      assume moved: "snd (main e st) \<noteq> st"
      then obtain commits where
        run: "main e st = (case generateSummary e commits st of
                             (Inl err, st') \<Rightarrow> (Exit1 err, st')
                           | (Inr (summary, modelName), st') \<Rightarrow> (Summary summary modelName, st'))"
        by (auto simp: main_def split: sum.splits if_splits)
      obtain res st' where g: "generateSummary e commits st = (res, st')"
        by (cases "generateSummary e commits st")
      show False
      proof (cases res)
        case (Inl x)
        with run g config gen [of commits] show False by auto
      next
        case (Inr r)
        with run g config show False by (cases r) auto
      qed
    qed
    then show "snd (main e st) = st
        \<and> provider_calls (trace (snd (main e st))) = provider_calls (trace st)"
      by simp
  qed
  from rejected untouched show ?thesis
    by (rule conjI)
qed

theorem main_without_repository_witness:
  "rev_parse ex_env_no_repo =
     ExecFail (Some ''fatal: not a git repository (or any of the parent directories): .git'')
   \<and> main ex_env_no_repo initial_state = (Exit1 NotAGitRepository, initial_state)
   \<and> provider_calls (trace (snd (main ex_env_no_repo initial_state))) = provider_calls (trace initial_state)"
proof -
  have h: "rev_parse ex_env_no_repo =
     ExecFail (Some ''fatal: not a git repository (or any of the parent directories): .git'')"
    by code_simp
  have u: "getGitUser ex_env_no_repo \<noteq> Inl GitUserConfigError"
    by code_simp
  have i: "stderr_includes (Some ''fatal: not a git repository (or any of the parent directories): .git'')
             ''not a git repository''"
    by code_simp
  note t = main_without_repository [of ex_env_no_repo initial_state]
  from t [THEN conjunct1, THEN spec, THEN mp, OF h]
  have run: "main ex_env_no_repo initial_state = (Exit1 NotAGitRepository, initial_state)"
    unfolding if_not_P [OF u] if_P [OF i] .
  then have "fst (main ex_env_no_repo initial_state) = Exit1 NotAGitRepository"
    by simp
  from t [THEN conjunct2, THEN mp, OF disjI1, OF this, THEN conjunct2] h run show ?thesis
    by (intro conjI)
qed

text \<open>Outside a working tree and without a configured author identity, the run does not
  fail with \<open>Not a Git repository\<close>.\<close>

theorem main_without_repository_counterexample:
  "stderr_includes (Some ''fatal: not a git repository (or any of the parent directories): .git'')
     ''not a git repository''
   \<and> rev_parse ex_env_no_repo_no_user =
       ExecFail (Some ''fatal: not a git repository (or any of the parent directories): .git'')
   \<and> fst (main ex_env_no_repo_no_user initial_state) = Exit1 GitUserConfigError
   \<and> fst (main ex_env_no_repo_no_user initial_state) \<noteq> Exit1 NotAGitRepository"
  by code_simp

section \<open>Properties of the model catalogue\<close>

lemma discovered_simple_names:
  "collect_simple_names
      [Some ''gemini-1.5-flash'', Some ''gemini-2.5-flash-preview'', Some ''gemini-2.5-pro'']
   = [''gemini-1.5-flash'', ''gemini-2.5-flash-preview'', ''gemini-2.5-pro'']"
  by code_simp

lemma discovered_preference:
  "dedupeModelList (buildDynamicModelPreference
      [''gemini-1.5-flash'', ''gemini-2.5-flash-preview'', ''gemini-2.5-pro''])
   = [''gemini-1.5-flash'']"
  by code_simp

lemma discovered_scores:
  "scoreModelName ''gemini-1.5-flash'' = 11450" "scoreModelName ''gemini-2.5-pro'' = 2350"
  by code_simp+

text \<open>
  Claim C4, as the code has it. When discovery returns exactly \<open>gemini-1.5-flash\<close>,
  \<open>gemini-2.5-flash-preview\<close> and \<open>gemini-2.5-pro\<close>, the resolved list is
  \<open>[gemini-1.5-flash]\<close>: the preview variant is excluded, and so is \<open>gemini-2.5-pro\<close>,
  which lacks the \<open>flash\<close> marker and therefore has no rank in the list; by score,
  \<open>gemini-1.5-flash\<close> is strictly above \<open>gemini-2.5-pro\<close>.
\<close>

theorem resolve_discovered_models:
  assumes "\<not> demoMode e" and "requestedModel e = None"
      and "resolvedModelPreferencePromise st = None" and "availableModelInfoPromise st = None"
      and "models_list e (trace st) =
             Some [Some ''gemini-1.5-flash'', Some ''gemini-2.5-flash-preview'', Some ''gemini-2.5-pro'']"
  shows "fst (getResolvedModelPreference e st) = [''gemini-1.5-flash'']
         \<and> ''gemini-2.5-flash-preview'' \<notin> set (fst (getResolvedModelPreference e st))
         \<and> ''gemini-2.5-pro'' \<notin> set (fst (getResolvedModelPreference e st))
         \<and> scoreModelName ''gemini-2.5-pro'' < scoreModelName ''gemini-1.5-flash''"
proof -
  have "fst (loadAvailableModelInfo e st) =
          Some [''gemini-1.5-flash'', ''gemini-2.5-flash-preview'', ''gemini-2.5-pro'']"
    using assms(1,5) by (simp add: loadAvailableModelInfo_def aiClient_def discovered_simple_names)
  then have "fst (getAvailableModelInfo e st) =
          Some [''gemini-1.5-flash'', ''gemini-2.5-flash-preview'', ''gemini-2.5-pro'']"
    using assms(1,4) by (simp add: getAvailableModelInfo_def aiClient_def split_beta)
  then have "fst (resolve_fresh e st) = [''gemini-1.5-flash'']"
    using assms(2) by (simp add: resolve_fresh_def discover_preference_def discovered_preference split_beta split: option.splits)
  then have "fst (getResolvedModelPreference e st) = [''gemini-1.5-flash'']"
    using assms(3) by (simp add: getResolvedModelPreference_def split_beta)
  then show ?thesis
    by (simp add: discovered_scores)
qed

theorem resolve_discovered_models_witness:
  "\<not> demoMode ex_env \<and> requestedModel ex_env = None
   \<and> resolvedModelPreferencePromise initial_state = None
   \<and> availableModelInfoPromise initial_state = None
   \<and> models_list ex_env (trace initial_state) =
        Some [Some ''gemini-1.5-flash'', Some ''gemini-2.5-flash-preview'', Some ''gemini-2.5-pro'']
   \<and> fst (getResolvedModelPreference ex_env initial_state) = [''gemini-1.5-flash'']
   \<and> scoreModelName ''gemini-2.5-pro'' < scoreModelName ''gemini-1.5-flash''"
proof -
  have h1: "\<not> demoMode ex_env" and h2: "requestedModel ex_env = None"
    and h3: "resolvedModelPreferencePromise initial_state = None"
    and h4: "availableModelInfoPromise initial_state = None"
    and h5: "models_list ex_env (trace initial_state) =
        Some [Some ''gemini-1.5-flash'', Some ''gemini-2.5-flash-preview'', Some ''gemini-2.5-pro'']"
    by code_simp+
  note t = resolve_discovered_models [OF h1 h2 h3 h4 h5]
  from h1 h2 h3 h4 h5 t [THEN conjunct1] t [THEN conjunct2, THEN conjunct2, THEN conjunct2]
  show ?thesis
    by (intro conjI)
qed

text \<open>In the resolved list \<open>gemini-2.5-pro\<close> does not occur, so nothing ranks above it
  there.\<close>

theorem resolve_discovered_models_counterexample:
  "models_list ex_env (trace initial_state) =
        Some [Some ''gemini-1.5-flash'', Some ''gemini-2.5-flash-preview'', Some ''gemini-2.5-pro'']
   \<and> ''gemini-2.5-pro'' \<notin> set (fst (getResolvedModelPreference ex_env initial_state))
   \<and> \<not> ranks_above (fst (getResolvedModelPreference ex_env initial_state))
         ''gemini-1.5-flash'' ''gemini-2.5-pro''"
  by code_simp

section \<open>Memoisation\<close>

lemma getResolvedModelPreference_memo:
  "resolvedModelPreferencePromise st = Some r \<Longrightarrow> getResolvedModelPreference e st = (r, st)"
  by (simp add: getResolvedModelPreference_def)

lemma getResolvedModelPreference_sets_memo:
  "getResolvedModelPreference e st = (r, st') \<Longrightarrow> resolvedModelPreferencePromise st' = Some r"
  by (auto simp: getResolvedModelPreference_def split: option.splits prod.splits)

lemma loadAvailableModelInfo_calls:
  "loadAvailableModelInfo e st = (info, st') \<Longrightarrow> list_calls (trace st') \<le> list_calls (trace st) + 1"
  by (auto simp: loadAvailableModelInfo_def list_calls_def record_event_def
           split: if_splits option.splits)

lemma getAvailableModelInfo_calls:
  "getAvailableModelInfo e st = (info, st') \<Longrightarrow> list_calls (trace st') \<le> list_calls (trace st) + 1"
  by (auto simp: getAvailableModelInfo_def split: if_splits option.splits prod.splits
           dest: loadAvailableModelInfo_calls)

lemma resolve_fresh_calls:
  "resolve_fresh e st = (r, st') \<Longrightarrow> list_calls (trace st') \<le> list_calls (trace st) + 1"
  by (auto simp: resolve_fresh_def discover_preference_def split: if_splits option.splits prod.splits
           dest: getAvailableModelInfo_calls)

lemma getResolvedModelPreference_calls:
  "getResolvedModelPreference e st = (r, st') \<Longrightarrow> list_calls (trace st') \<le> list_calls (trace st) + 1"
  by (auto simp: getResolvedModelPreference_def split: option.splits prod.splits
           dest: resolve_fresh_calls)

lemma resolve_times_memo:
  "resolvedModelPreferencePromise st = Some r \<Longrightarrow> resolve_times n e st = (replicate n r, st)"
  by (induction n) (simp_all add: getResolvedModelPreference_memo)

text \<open>
  Claim C8. Over any number of invocations of \<open>getResolvedModelPreference\<close> in a row, from
  any state, the listing of models is called at most once, every invocation returns the
  list that the first one returned (the empty list included), the state after the first
  invocation is final, and a further invocation returns the same list without an event.
\<close>

theorem resolve_once:
  assumes "resolve_times (Suc n) e st = (rs, st')"
  shows "list_calls (trace st') \<le> list_calls (trace st) + 1
         \<and> rs = replicate (Suc n) (fst (getResolvedModelPreference e st))
         \<and> st' = snd (getResolvedModelPreference e st)
         \<and> getResolvedModelPreference e st' = (fst (getResolvedModelPreference e st), st')"
proof -
  obtain r st1 where first: "getResolvedModelPreference e st = (r, st1)"
    by (cases "getResolvedModelPreference e st")
  then have memo: "resolvedModelPreferencePromise st1 = Some r"
    by (rule getResolvedModelPreference_sets_memo)
  from assms first have "rs = r # replicate n r" and "st' = st1"
    by (simp_all add: resolve_times_memo [OF memo])
  with first memo getResolvedModelPreference_calls [OF first] show ?thesis
    by (simp add: getResolvedModelPreference_memo)
qed

theorem resolve_once_witness:
  "resolve_times (Suc 2) ex_env_no_listing initial_state =
     ([[], [], []],
      \<lparr>availableModelInfoPromise = Some None, resolvedModelPreferencePromise = Some [],
        modelListingWarningLogged = True, trace = [ListModels]\<rparr>)
   \<and> list_calls [ListModels] \<le> list_calls (trace initial_state) + 1
   \<and> getResolvedModelPreference ex_env_no_listing
        \<lparr>availableModelInfoPromise = Some None, resolvedModelPreferencePromise = Some [],
          modelListingWarningLogged = True, trace = [ListModels]\<rparr>
      = ([], \<lparr>availableModelInfoPromise = Some None, resolvedModelPreferencePromise = Some [],
               modelListingWarningLogged = True, trace = [ListModels]\<rparr>)"
proof -
  have run: "resolve_times (Suc 2) ex_env_no_listing initial_state =
     ([[], [], []],
      \<lparr>availableModelInfoPromise = Some None, resolvedModelPreferencePromise = Some [],
        modelListingWarningLogged = True, trace = [ListModels]\<rparr>)"
    by code_simp
  have first: "fst (getResolvedModelPreference ex_env_no_listing initial_state) = []"
    by code_simp
  note t = resolve_once [OF run]
  have a: "list_calls [ListModels] \<le> list_calls (trace initial_state) + 1"
    using t [THEN conjunct1] by simp
  have b: "getResolvedModelPreference ex_env_no_listing
        \<lparr>availableModelInfoPromise = Some None, resolvedModelPreferencePromise = Some [],
          modelListingWarningLogged = True, trace = [ListModels]\<rparr>
      = ([], \<lparr>availableModelInfoPromise = Some None, resolvedModelPreferencePromise = Some [],
               modelListingWarningLogged = True, trace = [ListModels]\<rparr>)"
    using t [THEN conjunct2, THEN conjunct2, THEN conjunct2] unfolding first .
  from run a b show ?thesis
    by (intro conjI)
qed

section \<open>Properties of the generation\<close>

lemma record_event_trace: "record_event ev st = st\<lparr>trace := trace st @ [ev]\<rparr>"
  by (simp add: record_event_def)

text \<open>An answer, or an error that is not retryable, ends the retry loop at once.\<close>

lemma callWithRetries_answer:
  "generate_content e (trace st) m = Inr r \<Longrightarrow>
   callWithRetries e m st = (Inr r, st\<lparr>trace := trace st @ [GenerateContent m]\<rparr>)"
  by (simp add: callWithRetries_def callWithRetries_from.simps [of e m 0] MAX_AI_RETRIES_def
        record_event_trace)

lemma callWithRetries_not_retryable:
  "generate_content e (trace st) m = Inl err \<Longrightarrow> \<not> isRetryableError err \<Longrightarrow>
   callWithRetries e m st = (Inl err, st\<lparr>trace := trace st @ [GenerateContent m]\<rparr>)"
  by (simp add: callWithRetries_def callWithRetries_from.simps [of e m 0] MAX_AI_RETRIES_def
        record_event_trace)

text \<open>Two retryable errors lead to the third attempt, after sleeps of 1200 and 2400 ms; the
  third attempt is the last, whatever it yields.\<close>

lemma callWithRetries_third_attempt:
  assumes "generate_content e (trace st) m = Inl e1" and "isRetryableError e1"
      and "generate_content e (trace st @ [GenerateContent m, Sleep 1200]) m = Inl e2"
      and "isRetryableError e2"
  shows "callWithRetries e m st =
           (generate_content e
              (trace st @ [GenerateContent m, Sleep 1200, GenerateContent m, Sleep 2400]) m,
            st\<lparr>trace := trace st @ [GenerateContent m, Sleep 1200, GenerateContent m, Sleep 2400,
                                     GenerateContent m]\<rparr>)"
proof -
  let ?st1 = "st\<lparr>trace := trace st @ [GenerateContent m, Sleep 1200]\<rparr>"
  let ?st2 = "st\<lparr>trace := trace st @ [GenerateContent m, Sleep 1200, GenerateContent m, Sleep 2400]\<rparr>"
  have third: "callWithRetries_from e m 2 ?st2 =
          (generate_content e (trace ?st2) m, ?st2\<lparr>trace := trace ?st2 @ [GenerateContent m]\<rparr>)"
    by (subst callWithRetries_from.simps)
       (simp add: MAX_AI_RETRIES_def record_event_trace split: sum.splits)
  have "callWithRetries_from e m 1 ?st1 = callWithRetries_from e m (1 + 1) ?st2"
    using assms(3,4)
    by (subst callWithRetries_from.simps)
       (simp add: MAX_AI_RETRIES_def record_event_trace RETRY_BASE_DELAY_MS_def)
  then have second: "callWithRetries_from e m 1 ?st1 = callWithRetries_from e m 2 ?st2"
    by (simp add: numeral_2_eq_2)
  have "callWithRetries_from e m 0 st = callWithRetries_from e m (0 + 1) ?st1"
    using assms(1,2)
    by (subst callWithRetries_from.simps)
       (simp add: MAX_AI_RETRIES_def record_event_trace RETRY_BASE_DELAY_MS_def)
  then have first: "callWithRetries_from e m 0 st = callWithRetries_from e m 1 ?st1"
    by simp
  show ?thesis
    unfolding callWithRetries_def first second third by simp
qed

lemma retryable_falls_back: "isRetryableError err \<Longrightarrow> shouldFallbackToNextModel err"
  by (simp add: shouldFallbackToNextModel_def)

lemma other_not_retryable: "\<not> shouldFallbackToNextModel err \<Longrightarrow> \<not> isRetryableError err"
  by (simp add: shouldFallbackToNextModel_def)

text \<open>
  Claim C5. Let the first two attempts on a model fail with retryable errors. Then a third
  attempt is made on the same model, after sleeps of 1200 and 2400 ms (the base delay times
  2 to the power attempt - 1), and it is the last one. If it fails retryably too, exactly
  three requests were made on the model, and the loop advances to the next model when one
  remains and fails for this model otherwise. If it answers with text, \<open>try_models\<close>
  returns that text for this model, and the trace holds the three requests on it and no
  request on a later model.
\<close>

theorem retry_then_succeed_or_advance:
  assumes "generate_content e (trace st) m = Inl e1" and "isRetryableError e1"
      and "generate_content e (trace st @ [GenerateContent m, Sleep 1200]) m = Inl e2"
      and "isRetryableError e2"
  shows "(\<forall>e3. generate_content e
                 (trace st @ [GenerateContent m, Sleep 1200, GenerateContent m, Sleep 2400]) m = Inl e3
               \<and> isRetryableError e3 \<longrightarrow>
            callWithRetries e m st =
              (Inl e3, st\<lparr>trace := trace st @ [GenerateContent m, Sleep 1200, GenerateContent m,
                                               Sleep 2400, GenerateContent m]\<rparr>)
            \<and> try_models e tickets (m # rest) errors st =
                (if rest \<noteq> []
                 then try_models e tickets rest (errors @ [(m, message_or e3 ''Unknown error'')])
                        (st\<lparr>trace := trace st @ [GenerateContent m, Sleep 1200, GenerateContent m,
                                                 Sleep 2400, GenerateContent m]\<rparr>)
                 else (Inl (ModelFailed (failure_message m e3)),
                       st\<lparr>trace := trace st @ [GenerateContent m, Sleep 1200, GenerateContent m,
                                                Sleep 2400, GenerateContent m]\<rparr>)))
         \<and> (\<forall>r. generate_content e
                 (trace st @ [GenerateContent m, Sleep 1200, GenerateContent m, Sleep 2400]) m = Inr r
               \<and> extractResponseText r \<noteq> [] \<longrightarrow>
            try_models e tickets (m # rest) errors st =
              (Inr (with_jira_tickets tickets (extractResponseText r), Some m),
               st\<lparr>trace := trace st @ [GenerateContent m, Sleep 1200, GenerateContent m,
                                        Sleep 2400, GenerateContent m]\<rparr>))
         \<and> RETRY_BASE_DELAY_MS * 2 ^ (1 - 1) = 1200 \<and> RETRY_BASE_DELAY_MS * 2 ^ (2 - 1) = 2400"
proof -
  note call = callWithRetries_third_attempt [OF assms]
  show ?thesis
    by (simp add: call attempt_model_def retryable_falls_back RETRY_BASE_DELAY_MS_def)
qed


theorem retry_then_succeed_or_advance_witness:
  "generate_content ex_env_flaky (trace initial_state) ''gemini-2.5-flash'' = Inl ex_error_503
   \<and> isRetryableError ex_error_503
   \<and> generate_content ex_env_flaky
        (trace initial_state @ [GenerateContent ''gemini-2.5-flash'', Sleep 1200]) ''gemini-2.5-flash''
       = Inl ex_error_503
   \<and> generate_content ex_env_flaky
        (trace initial_state @ [GenerateContent ''gemini-2.5-flash'', Sleep 1200,
                                GenerateContent ''gemini-2.5-flash'', Sleep 2400]) ''gemini-2.5-flash''
       = Inr ex_response
   \<and> extractResponseText ex_response \<noteq> []
   \<and> try_models ex_env_flaky [] (''gemini-2.5-flash'' # [''gemini-1.5-flash'']) [] initial_state =
       (Inr (with_jira_tickets [] (extractResponseText ex_response), Some ''gemini-2.5-flash''),
        initial_state\<lparr>trace := trace initial_state @
          [GenerateContent ''gemini-2.5-flash'', Sleep 1200, GenerateContent ''gemini-2.5-flash'',
           Sleep 2400, GenerateContent ''gemini-2.5-flash'']\<rparr>)
   \<and> generate_content ex_env_down
        (trace initial_state @ [GenerateContent ''gemini-2.5-flash'', Sleep 1200,
                                GenerateContent ''gemini-2.5-flash'', Sleep 2400]) ''gemini-2.5-flash''
       = Inl ex_error_503
   \<and> callWithRetries ex_env_down ''gemini-2.5-flash'' initial_state =
       (Inl ex_error_503,
        initial_state\<lparr>trace := trace initial_state @
          [GenerateContent ''gemini-2.5-flash'', Sleep 1200, GenerateContent ''gemini-2.5-flash'',
           Sleep 2400, GenerateContent ''gemini-2.5-flash'']\<rparr>)"
proof -
  have f1: "generate_content ex_env_flaky (trace initial_state) ''gemini-2.5-flash'' = Inl ex_error_503"
    by code_simp
  have r: "isRetryableError ex_error_503"
    by code_simp
  have f2: "generate_content ex_env_flaky
        (trace initial_state @ [GenerateContent ''gemini-2.5-flash'', Sleep 1200]) ''gemini-2.5-flash''
       = Inl ex_error_503"
    by code_simp
  have f3: "generate_content ex_env_flaky
        (trace initial_state @ [GenerateContent ''gemini-2.5-flash'', Sleep 1200,
                                GenerateContent ''gemini-2.5-flash'', Sleep 2400]) ''gemini-2.5-flash''
       = Inr ex_response"
    by code_simp
  have t: "extractResponseText ex_response \<noteq> []"
    by code_simp
  have d1: "generate_content ex_env_down (trace initial_state) ''gemini-2.5-flash'' = Inl ex_error_503"
    by code_simp
  have d2: "generate_content ex_env_down
        (trace initial_state @ [GenerateContent ''gemini-2.5-flash'', Sleep 1200]) ''gemini-2.5-flash''
       = Inl ex_error_503"
    by code_simp
  have d3: "generate_content ex_env_down
        (trace initial_state @ [GenerateContent ''gemini-2.5-flash'', Sleep 1200,
                                GenerateContent ''gemini-2.5-flash'', Sleep 2400]) ''gemini-2.5-flash''
       = Inl ex_error_503"
    by code_simp
  note succeed = retry_then_succeed_or_advance [OF f1 r f2 r, of "[]" "[''gemini-1.5-flash'']" "[]",
      THEN conjunct2, THEN conjunct1, THEN spec, THEN mp, OF conjI [OF f3 t]]
  note exhaust = retry_then_succeed_or_advance [OF d1 r d2 r, of "[]" "[]" "[]",
      THEN conjunct1, THEN spec, THEN mp, OF conjI [OF d3 r], THEN conjunct1]
  from f1 r f2 f3 t succeed d3 exhaust show ?thesis
    by (intro conjI)
qed

lemma empty_response_is_other:
  "\<not> shouldFallbackToNextModel (new_Error ''Model returned an empty response.'')"
  by code_simp

text \<open>
  Claim C6, as the code has it. An error for which \<open>shouldFallbackToNextModel\<close> is false
  (neither retryable, nor quota or permission, nor model not found), and likewise an answer
  whose extracted text is empty, ends the run: the model is called once, the failure names
  it, and no later candidate is contacted, whether one remains or not.
\<close>

theorem other_error_is_terminal:
  assumes "(generate_content e (trace st) m = Inl final \<and> \<not> shouldFallbackToNextModel final)
           \<or> (\<exists>r. generate_content e (trace st) m = Inr r \<and> extractResponseText r = []
                  \<and> final = new_Error ''Model returned an empty response.'')"
  shows "try_models e tickets (m # rest) errors st =
           (Inl (ModelFailed (failure_message m final)),
            st\<lparr>trace := trace st @ [GenerateContent m]\<rparr>)"
  using assms
proof (elim disjE conjE exE)
  assume "generate_content e (trace st) m = Inl final" and "\<not> shouldFallbackToNextModel final"
  then show ?thesis
    by (simp add: attempt_model_def callWithRetries_not_retryable other_not_retryable)
next
  fix r
  assume "generate_content e (trace st) m = Inr r" and "extractResponseText r = []"
    and "final = new_Error ''Model returned an empty response.''"
  then show ?thesis
    by (simp add: attempt_model_def callWithRetries_answer empty_response_is_other)
qed

theorem other_error_is_terminal_witness:
  "generate_content ex_env_blank (trace initial_state) ''gemini-2.5-flash'' = Inr ex_blank_response
   \<and> extractResponseText ex_blank_response = []
   \<and> try_models ex_env_blank [] (''gemini-2.5-flash'' # [''gemini-1.5-flash'']) [] initial_state =
       (Inl (ModelFailed (failure_message ''gemini-2.5-flash''
               (new_Error ''Model returned an empty response.''))),
        initial_state\<lparr>trace := trace initial_state @ [GenerateContent ''gemini-2.5-flash'']\<rparr>)"
proof -
  have g: "generate_content ex_env_blank (trace initial_state) ''gemini-2.5-flash'' = Inr ex_blank_response"
    by code_simp
  have t: "extractResponseText ex_blank_response = []"
    by code_simp
  have "\<exists>r. generate_content ex_env_blank (trace initial_state) ''gemini-2.5-flash'' = Inr r
            \<and> extractResponseText r = []
            \<and> new_Error ''Model returned an empty response.'' = new_Error ''Model returned an empty response.''"
    using g t by (intro exI [of _ ex_blank_response] conjI refl)
  note other_error_is_terminal [OF disjI2, OF this, of "[]" "[''gemini-1.5-flash'']" "[]"]
  with g t show ?thesis
    by (intro conjI)
qed

theorem other_error_is_terminal_counterexample:
  "extractResponseText ex_blank_response = []
   \<and> fst (try_models ex_env_blank [] [''gemini-2.5-flash'', ''gemini-1.5-flash''] [] initial_state) =
       Inl (ModelFailed (''Failed to generate summary with model gemini-2.5-flash: ''
              @ ''Model returned an empty response.. ''
              @ ''Make sure the Gemini model name is correct and your API key has access to it.''))
   \<and> trace (snd (try_models ex_env_blank [] [''gemini-2.5-flash'', ''gemini-1.5-flash''] []
                     initial_state)) = [GenerateContent ''gemini-2.5-flash'']
   \<and> fst (try_models ex_env_blank [] [''gemini-1.5-flash''] [] initial_state) =
       Inr (''Yesterday, I shipped the login.'', Some ''gemini-1.5-flash'')"
  by code_simp

text \<open>The throw after the loop is never reached with a non-empty list of models: the last
  model has no fallback, so its failure is reported alone.\<close>

lemma try_models_never_aggregate:
  "ms \<noteq> [] \<Longrightarrow> fst (try_models e tickets ms errors st) \<noteq> Inl (AggregateFailure x)"
proof (induction ms arbitrary: errors st)
  case Nil
  then show ?case by simp
next
  case (Cons m ms)
  show ?case
  proof (cases "attempt_model e tickets m st")
    case (Pair res st')
    show ?thesis
    proof (cases res)
      case (Inr summary)
      with Pair show ?thesis by simp
    next
      case (Inl err)
      show ?thesis
      proof (cases "ms \<noteq> [] \<and> shouldFallbackToNextModel err")
        case True
        with Pair Inl Cons.IH [of "errors @ [(m, message_or err ''Unknown error'')]" st']
        show ?thesis by simp
      next
        case False
        with Pair Inl show ?thesis by auto
      qed
    qed
  qed
qed

text \<open>
  Claim C7 at a concrete run: two models are available and every request is answered with
  status 503. Both models are tried three times each; the run then fails with the message
  for the last model alone, which does not mention the first model, and not with the
  aggregate message built by \<open>formatAggregateError\<close>.
\<close>

theorem generateSummary_all_models_fail:
  "fst (generateSummary ex_env_down ex_commits initial_state) =
     Inl (ModelFailed (''Failed to generate summary with model gemini-1.5-flash: overloaded. ''
            @ ''Make sure the Gemini model name is correct and your API key has access to it.''))
   \<and> trace (snd (generateSummary ex_env_down ex_commits initial_state)) =
       [ListModels,
        GenerateContent ''gemini-2.5-flash'', Sleep 1200, GenerateContent ''gemini-2.5-flash'',
        Sleep 2400, GenerateContent ''gemini-2.5-flash'',
        GenerateContent ''gemini-1.5-flash'', Sleep 1200, GenerateContent ''gemini-1.5-flash'',
        Sleep 2400, GenerateContent ''gemini-1.5-flash'']
   \<and> formatAggregateError [(''gemini-2.5-flash'', ''overloaded''), (''gemini-1.5-flash'', ''overloaded'')] =
       ''AI summarization failed. Details: gemini-2.5-flash: overloaded | gemini-1.5-flash: overloaded''
       @ ''. Last error from gemini-1.5-flash: overloaded''"
  by code_simp

section \<open>Properties of the ticket extraction\<close>

lemma char_classes:
  "\<not> is_upper CHR ''-''" "\<not> is_word CHR ''-''" "\<not> is_digit CHR ''-''"
  by code_simp+

lemma upper_is_word: "is_upper c \<Longrightarrow> is_word c"
  by (simp add: is_word_def)

lemma digit_is_word: "is_digit c \<Longrightarrow> is_word c"
  by (simp add: is_word_def)

lemma digit_not_upper: "is_digit c \<Longrightarrow> \<not> is_upper c"
  by (auto simp: is_digit_def is_upper_def less_eq_char_def)


text \<open>The anchored matcher finds exactly the ticket-shaped prefix that ends at a word
  boundary.\<close>

lemma match_ticket_here_sound:
  assumes "match_ticket_here s = Some (t, rest)"
  shows "s = t @ rest \<and> ticket_shape t \<and> \<not> (rest \<noteq> [] \<and> is_word (hd rest))"
proof -
  let ?ls = "takeWhile is_upper s"
  from assms have ls: "?ls \<noteq> []"
    by (auto simp: match_ticket_here_def split: if_splits)
  from assms obtain c r where dw: "dropWhile is_upper s = c # r"
    unfolding match_ticket_here_def
    by (cases "dropWhile is_upper s") (simp_all del: dropWhile_eq_Nil_conv split: if_splits)
  let ?ds = "takeWhile is_digit r"
  from assms have c: "c = CHR ''-''" and ds: "?ds \<noteq> []"
    unfolding match_ticket_here_def dw by (simp_all split: if_splits)
  from assms have m:
    "(case dropWhile is_digit r of
        [] \<Rightarrow> Some (?ls @ ''-'' @ ?ds, [])
      | d # r' \<Rightarrow> if is_word d then None else Some (?ls @ ''-'' @ ?ds, d # r')) = Some (t, rest)"
    unfolding match_ticket_here_def dw using ls c ds by simp
  have t: "t = ?ls @ ''-'' @ ?ds" and rest: "rest = dropWhile is_digit r"
    and edge: "\<not> (rest \<noteq> [] \<and> is_word (hd rest))"
  proof (atomize (full), cases "dropWhile is_digit r")
    case Nil
    from m [unfolded Nil] show "t = ?ls @ ''-'' @ ?ds \<and> rest = dropWhile is_digit r
                     \<and> \<not> (rest \<noteq> [] \<and> is_word (hd rest))"
      unfolding Nil by simp
  next
    case (Cons d r')
    from m [unfolded Cons] show "t = ?ls @ ''-'' @ ?ds \<and> rest = dropWhile is_digit r
                     \<and> \<not> (rest \<noteq> [] \<and> is_word (hd rest))"
      unfolding Cons by (auto split: if_splits)
  qed
  have "s = ?ls @ dropWhile is_upper s"
    by simp
  also have "\<dots> = ?ls @ ''-'' @ (?ds @ dropWhile is_digit r)"
    unfolding dw c by simp
  finally have "s = t @ rest"
    unfolding t rest by simp
  moreover have "ticket_shape t"
    unfolding ticket_shape_def
    using ls ds t by (intro exI [of _ ?ls] exI [of _ ?ds]) (auto dest: set_takeWhileD)
  ultimately show ?thesis
    using edge by simp
qed

lemma not_word_not_digit: "\<not> is_word c \<Longrightarrow> \<not> is_digit c"
  by (simp add: is_word_def)

lemma match_ticket_here_parts:
  assumes "\<forall>c\<in>set ls. is_upper c" and "\<forall>c\<in>set ds. is_digit c" and "ls \<noteq> []" and "ds \<noteq> []"
      and "\<not> (rest \<noteq> [] \<and> is_word (hd rest))"
  shows "match_ticket_here (ls @ CHR ''-'' # ds @ rest) = Some (ls @ CHR ''-'' # ds, rest)"
proof -
  have tw: "takeWhile is_upper (ls @ CHR ''-'' # ds @ rest) = ls"
    using assms(1) by (simp add: char_classes)
  have dw: "dropWhile is_upper (ls @ CHR ''-'' # ds @ rest) = CHR ''-'' # ds @ rest"
    using assms(1) by (simp add: char_classes)
  have twd: "takeWhile is_digit (ds @ rest) = ds" and dwd: "dropWhile is_digit (ds @ rest) = rest"
    using assms(2,5) by (cases rest; simp add: not_word_not_digit)+
  have "match_ticket_here (ls @ CHR ''-'' # ds @ rest) =
          (if ls = [] then None
           else if ds = [] then None
           else (case rest of
                   [] \<Rightarrow> Some (ls @ ''-'' @ ds, [])
                 | d # r' \<Rightarrow> if is_word d then None else Some (ls @ ''-'' @ ds, d # r')))"
    unfolding match_ticket_here_def tw dw list.case twd dwd by simp
  with assms(3,4,5) show ?thesis
    by (cases rest) simp_all
qed

lemma match_ticket_here_complete:
  assumes "ticket_shape t" and "\<not> (rest \<noteq> [] \<and> is_word (hd rest))"
  shows "match_ticket_here (t @ rest) = Some (t, rest)"
proof -
  from assms(1) obtain ls ds where t: "t = ls @ ''-'' @ ds" and ls: "ls \<noteq> []" and ds: "ds \<noteq> []"
    and up: "\<forall>c\<in>set ls. is_upper c" and dg: "\<forall>c\<in>set ds. is_digit c"
    unfolding ticket_shape_def by blast
  from match_ticket_here_parts [OF up dg ls ds assms(2)] show ?thesis
    by (simp add: t)
qed

lemma match_ticket_here_iff:
  "match_ticket_here s = Some (t, rest) \<longleftrightarrow>
     s = t @ rest \<and> ticket_shape t \<and> \<not> (rest \<noteq> [] \<and> is_word (hd rest))"
  using match_ticket_here_sound match_ticket_here_complete by blast

lemma ticket_shape_ends:
  assumes "ticket_shape t"
  shows "t \<noteq> []" and "is_upper (hd t)" and "is_digit (last t)"
proof -
  from assms obtain ls ds where t: "t = ls @ ''-'' @ ds" and ls: "ls \<noteq> []" and ds: "ds \<noteq> []"
    and up: "\<forall>c\<in>set ls. is_upper c" and dg: "\<forall>c\<in>set ds. is_digit c"
    unfolding ticket_shape_def by blast
  show "t \<noteq> []" using t ls by simp
  show "is_upper (hd t)" using t ls up by (cases ls) simp_all
  show "is_digit (last t)" using t ds dg by simp
qed


lemma occurrences_Nil: "occurrences prev [] = {}"
  by (auto simp: occurrences_def dest: ticket_shape_ends(1))

lemma occurrences_Cons:
  "occurrences prev (c # cs) =
     {t. \<exists>r. c # cs = t @ r \<and> ticket_shape t \<and> \<not> word_before prev
            \<and> \<not> (r \<noteq> [] \<and> is_word (hd r))}
     \<union> occurrences (Some c) cs"
proof (rule set_eqI)
  fix t
  show "t \<in> occurrences prev (c # cs) \<longleftrightarrow>
        t \<in> {t. \<exists>r. c # cs = t @ r \<and> ticket_shape t \<and> \<not> word_before prev
                    \<and> \<not> (r \<noteq> [] \<and> is_word (hd r))} \<union> occurrences (Some c) cs"
  proof
    assume "t \<in> occurrences prev (c # cs)"
    then obtain p r where pr: "c # cs = p @ t @ r" "ticket_shape t"
      "\<not> word_before (if p = [] then prev else Some (last p))" "\<not> (r \<noteq> [] \<and> is_word (hd r))"
      unfolding occurrences_def by blast
    show "t \<in> {t. \<exists>r. c # cs = t @ r \<and> ticket_shape t \<and> \<not> word_before prev
                    \<and> \<not> (r \<noteq> [] \<and> is_word (hd r))} \<union> occurrences (Some c) cs"
    proof (cases p)
      case Nil
      with pr show ?thesis by auto
    next
      case (Cons x p')
      with pr(1) have cs: "cs = p' @ t @ r" and x: "x = c"
        by simp_all
      have "(if p' = [] then Some c else Some (last p')) = Some (last p)"
        using Cons x by simp
      with pr(3) Cons have "\<not> word_before (if p' = [] then Some c else Some (last p'))"
        by simp
      with cs pr(2,4) have "t \<in> occurrences (Some c) cs"
        unfolding occurrences_def by blast
      then show ?thesis by simp
    qed
  next
    assume "t \<in> {t. \<exists>r. c # cs = t @ r \<and> ticket_shape t \<and> \<not> word_before prev
                    \<and> \<not> (r \<noteq> [] \<and> is_word (hd r))} \<union> occurrences (Some c) cs"
    then consider
        (here) r where "c # cs = t @ r" "ticket_shape t" "\<not> word_before prev"
          "\<not> (r \<noteq> [] \<and> is_word (hd r))"
      | (later) "t \<in> occurrences (Some c) cs"
      by blast
    then show "t \<in> occurrences prev (c # cs)"
    proof cases
      case here
      then have "c # cs = [] @ t @ r" and "\<not> word_before (if [] = ([]::string) then prev else Some (last []))"
        by simp_all
      with here(2,4) show ?thesis
        unfolding occurrences_def by blast
    next
      case later
      then obtain p r where pr: "cs = p @ t @ r" "ticket_shape t"
        "\<not> word_before (if p = [] then Some c else Some (last p))" "\<not> (r \<noteq> [] \<and> is_word (hd r))"
        unfolding occurrences_def by blast
      have "c # cs = (c # p) @ t @ r"
        using pr(1) by simp
      moreover have "\<not> word_before (if c # p = [] then prev else Some (last (c # p)))"
        using pr(3) by (cases p) simp_all
      ultimately show ?thesis
        using pr(2,4) unfolding occurrences_def by blast
    qed
  qed
qed

lemma here_set:
  "{t. \<exists>r. s = t @ r \<and> ticket_shape t \<and> \<not> (r \<noteq> [] \<and> is_word (hd r))} =
     (case match_ticket_here s of None \<Rightarrow> {} | Some (t, r) \<Rightarrow> {t})"
proof (cases "match_ticket_here s")
  case None
  then have "\<And>t r. \<not> (s = t @ r \<and> ticket_shape t \<and> \<not> (r \<noteq> [] \<and> is_word (hd r)))"
    using match_ticket_here_complete by fastforce
  with None show ?thesis by auto
next
  case (Some a)
  obtain t r where a: "a = (t, r)" by (cases a)
  have "(s = t' @ r' \<and> ticket_shape t' \<and> \<not> (r' \<noteq> [] \<and> is_word (hd r'))) \<longleftrightarrow> (t' = t \<and> r' = r)"
    for t' r'
    using Some a match_ticket_here_iff [of s t' r'] by auto
  then show ?thesis
    unfolding Some a by auto
qed

text \<open>No ticket starts inside a ticket: a letter inside it follows a letter.\<close>

lemma letter_inside_ticket:
  assumes "ticket_shape (a @ x # b)" and "a \<noteq> []" and "is_upper x"
  shows "is_upper (last a)"
proof -
  from assms(1) obtain ls ds where eq: "a @ x # b = ls @ CHR ''-'' # ds"
    and up: "\<forall>c\<in>set ls. is_upper c" and dg: "\<forall>c\<in>set ds. is_digit c"
    unfolding ticket_shape_def by auto
  from eq obtain us where
    "(a = ls @ us \<and> us @ x # b = CHR ''-'' # ds) \<or> (a @ us = ls \<and> x # b = us @ CHR ''-'' # ds)"
    unfolding append_eq_append_conv2 by blast
  then show ?thesis
  proof (elim disjE conjE)
    assume "a = ls @ us" and tail: "us @ x # b = CHR ''-'' # ds"
    show ?thesis
    proof (cases us)
      case Nil
      with tail assms(3) show ?thesis by (simp add: char_classes)
    next
      case (Cons u us')
      with tail have "x \<in> set ds" by auto
      with dg assms(3) show ?thesis by (auto dest: digit_not_upper)
    qed
  next
    assume ls: "a @ us = ls" and tail: "x # b = us @ CHR ''-'' # ds"
    show ?thesis
    proof (cases us)
      case Nil
      with tail assms(3) show ?thesis by (simp add: char_classes)
    next
      case (Cons u us')
      from ls assms(2) have "last a \<in> set ls" by auto
      with up show ?thesis by simp
    qed
  qed
qed

lemma no_ticket_inside:
  assumes "ticket_shape (a @ b)" and "a \<noteq> []"
  shows "occurrences (Some (last a)) (b @ rest) = occurrences (Some (last (a @ b))) rest"
  using assms
proof (induction b arbitrary: a)
  case Nil
  then show ?case by simp
next
  case (Cons x b)
  have none: "{t. \<exists>r. x # b @ rest = t @ r \<and> ticket_shape t \<and> \<not> word_before (Some (last a))
                    \<and> \<not> (r \<noteq> [] \<and> is_word (hd r))} = {}"
  proof -
    have False if "x # b @ rest = t @ r" and "ticket_shape t" and "\<not> word_before (Some (last a))" for t r
    proof -
      from that(1,2) have "is_upper x"
        using ticket_shape_ends(1,2) [of t] by (cases t) auto
      with Cons.prems have "is_upper (last a)"
        by (intro letter_inside_ticket [of a x b]) simp_all
      with that(3) show False
        by (simp add: word_before_def upper_is_word)
    qed
    then show ?thesis by blast
  qed
  have step: "occurrences (Some (last a)) ((x # b) @ rest) = occurrences (Some x) (b @ rest)"
    by (simp only: append_Cons occurrences_Cons none Un_empty_left)
  have "ticket_shape ((a @ [x]) @ b)"
    using Cons.prems(1) by simp
  from Cons.IH [OF this] have "occurrences (Some (last (a @ [x]))) (b @ rest) =
      occurrences (Some (last ((a @ [x]) @ b))) rest"
    by simp
  moreover have "last (a @ [x]) = x" and "(a @ [x]) @ b = a @ x # b"
    by simp_all
  ultimately have "occurrences (Some x) (b @ rest) = occurrences (Some (last (a @ x # b))) rest"
    by (simp only:)
  with step show ?case
    by (simp only:)
qed

lemma match_tickets_occurrences:
  "set (match_tickets prev s) = occurrences prev s"
proof (induction prev s rule: match_tickets.induct)
  case (1 prev)
  show ?case by (simp add: occurrences_Nil)
next
  case (2 prev c cs)
  have start: "(case prev of None \<Rightarrow> True | Some p \<Rightarrow> \<not> is_word p) = (\<not> word_before prev)"
    by (simp add: word_before_def split: option.splits)
  note cons = occurrences_Cons [of prev c cs]
  note ih_no_match = 2(1) and ih_match = 2(2) and ih_blocked = 2(3)
  show ?case
  proof (cases "word_before prev")
    case True
    then have blocked: "\<not> (case prev of None \<Rightarrow> True | Some p \<Rightarrow> \<not> is_word p)"
      by (simp add: start)
    from ih_blocked [OF blocked] blocked
    have "set (match_tickets prev (c # cs)) = occurrences (Some c) cs"
      by simp
    with True show ?thesis
      unfolding cons by simp
  next
    case False
    then have free: "case prev of None \<Rightarrow> True | Some p \<Rightarrow> \<not> is_word p"
      by (simp add: start)
    show ?thesis
    proof (cases "match_ticket_here (c # cs)")
      case None
      from ih_no_match [OF free None] free None
      have "set (match_tickets prev (c # cs)) = occurrences (Some c) cs"
        by simp
      moreover have "{t. \<exists>r. c # cs = t @ r \<and> ticket_shape t \<and> \<not> (r \<noteq> [] \<and> is_word (hd r))} = {}"
        unfolding here_set None by simp
      ultimately show ?thesis
        unfolding cons using False by auto
    next
      case (Some a)
      obtain t rest where a: "a = (t, rest)" by (cases a)
      from Some a have parts: "c # cs = t @ rest" "ticket_shape t"
        using match_ticket_here_sound by blast+
      from parts obtain t' where t': "t = c # t'" and cs: "cs = t' @ rest"
        using ticket_shape_ends(1) [of t] by (cases t) auto
      have "set (match_tickets prev (c # cs)) = insert t (set (match_tickets (Some (last t)) rest))"
        using free Some a by simp
      also have "set (match_tickets (Some (last t)) rest) = occurrences (Some (last t)) rest"
        using ih_match [OF free Some a [symmetric]] .
      also have "occurrences (Some (last t)) rest = occurrences (Some c) cs"
        using no_ticket_inside [of "[c]" t' rest] parts(2) unfolding t' cs by simp
      finally have "set (match_tickets prev (c # cs)) = insert t (occurrences (Some c) cs)" .
      moreover have "{t. \<exists>r. c # cs = t @ r \<and> ticket_shape t \<and> \<not> (r \<noteq> [] \<and> is_word (hd r))} = {t}"
        unfolding here_set Some a by simp
      ultimately show ?thesis
        unfolding cons using False by auto
    qed
  qed
qed


lemma occurrences_whole_message: "occurrences None msg = {t. ticket_occurrence msg t}"
proof -
  have "(ticket_shape t \<and> word_boundary before (t @ after) \<and> word_boundary (before @ t) after)
        \<longleftrightarrow> (ticket_shape t \<and> \<not> word_before (if before = [] then None else Some (last before))
              \<and> \<not> (after \<noteq> [] \<and> is_word (hd after)))" for t before after
  proof (cases "ticket_shape t")
    case True
    then have "t \<noteq> []" and "is_word (hd t)" and "is_word (last t)"
      by (auto dest: ticket_shape_ends upper_is_word digit_is_word)
    then show ?thesis
      by (auto simp: word_boundary_def word_before_def)
  next
    case False
    then show ?thesis by simp
  qed
  then show ?thesis
    unfolding occurrences_def ticket_occurrence_def by simp
qed

lemma set_collect_tickets:
  "set (foldl (\<lambda>tickets commit. foldl set_add tickets (f commit)) acc commits) =
     set acc \<union> (\<Union>c\<in>set commits. set (f c))"
  by (induction commits arbitrary: acc) (auto simp: set_foldl_set_add)

lemma distinct_foldl_set_add: "distinct xs \<Longrightarrow> distinct (foldl set_add xs ys)"
  by (induction ys arbitrary: xs) (simp_all add: distinct_set_add)

lemma distinct_collect_tickets:
  "distinct acc \<Longrightarrow> distinct (foldl (\<lambda>tickets commit. foldl set_add tickets (f commit)) acc commits)"
  by (induction commits arbitrary: acc) (simp_all add: distinct_foldl_set_add)

text \<open>\<open>s.includes(sub)\<close> holds exactly when \<open>sub\<close> is a substring of \<open>s\<close>.\<close>

lemma index_of_None_iff: "index_of sub s = None \<longleftrightarrow> \<not> sublist sub s"
proof (induction s)
  case Nil
  then show ?case by simp
next
  case (Cons c cs)
  then show ?case
    by (auto simp: sublist_Cons_right)
qed

lemma js_includes_sublist: "js_includes s sub \<longleftrightarrow> sublist sub s"
  by (simp add: js_includes_def index_of_None_iff)

text \<open>An answer that the retry loop returns is the provider's answer to the last request
  of the trace, a request on this model.\<close>

lemma callWithRetries_from_answer:
  "attempt < MAX_AI_RETRIES \<Longrightarrow> callWithRetries_from e m attempt st = (Inr r, st') \<Longrightarrow>
   \<exists>tr. trace st' = tr @ [GenerateContent m] \<and> generate_content e tr m = Inr r"
proof (induction e m attempt st rule: callWithRetries_from.induct)
  case (1 e m attempt st)
  show ?case
  proof (cases "generate_content e (trace st) m")
    case (Inr answer)
    with "1.prems" have "r = answer" and "st' = record_event (GenerateContent m) st"
      by (simp_all add: callWithRetries_from.simps [of e m attempt st])
    with Inr show ?thesis
      by (simp add: record_event_trace)
  next
    case (Inl err)
    show ?thesis
    proof (cases "attempt + 1 \<ge> MAX_AI_RETRIES \<or> \<not> isRetryableError err")
      case True
      with "1.prems" Inl show ?thesis
        by (simp add: callWithRetries_from.simps [of e m attempt st])
    next
      case False
      let ?next = "record_event (Sleep (RETRY_BASE_DELAY_MS * 2 ^ (attempt + 1 - 1)))
                     (record_event (GenerateContent m) st)"
      from False "1.prems" Inl have again: "callWithRetries_from e m (attempt + 1) ?next = (Inr r, st')"
        by (simp add: callWithRetries_from.simps [of e m attempt st])
      from False have budget: "attempt + 1 < MAX_AI_RETRIES"
        by simp
      from "1.IH" [OF "1.prems"(1) Inl False budget again] show ?thesis .
    qed
  qed
qed

lemma attempt_model_summary:
  assumes "attempt_model e tickets m st = (Inr summary, st')"
  shows "\<exists>tr r. trace st' = tr @ [GenerateContent m] \<and> generate_content e tr m = Inr r
           \<and> extractResponseText r \<noteq> []
           \<and> summary = with_jira_tickets tickets (extractResponseText r)"
proof -
  obtain res st1 where call: "callWithRetries e m st = (res, st1)"
    by (cases "callWithRetries e m st")
  with assms obtain r where r: "res = Inr r" and st1: "st1 = st'"
    and filled: "extractResponseText r \<noteq> []"
    and s: "summary = with_jira_tickets tickets (extractResponseText r)"
    by (cases res) (auto simp: attempt_model_def split: if_splits)
  from call r st1 have "callWithRetries_from e m 0 st = (Inr r, st')"
    by (simp add: callWithRetries_def)
  from callWithRetries_from_answer [OF _ this] obtain tr where
    "trace st' = tr @ [GenerateContent m]" "generate_content e tr m = Inr r"
    by (auto simp: MAX_AI_RETRIES_def)
  with filled s show ?thesis
    by blast
qed

lemma try_models_summary:
  "try_models e tickets ms errors st = (Inr (summary, model), st') \<Longrightarrow>
   \<exists>m tr r. model = Some m \<and> trace st' = tr @ [GenerateContent m]
      \<and> generate_content e tr m = Inr r \<and> extractResponseText r \<noteq> []
      \<and> summary = with_jira_tickets tickets (extractResponseText r)"
proof (induction ms arbitrary: errors st)
  case Nil
  then show ?case by simp
next
  case (Cons m ms)
  obtain res st1 where a: "attempt_model e tickets m st = (res, st1)"
    by (cases "attempt_model e tickets m st")
  show ?case
  proof (cases res)
    case (Inr s)
    with Cons.prems a have "summary = s" and "model = Some m" and "st1 = st'"
      by simp_all
    with a Inr attempt_model_summary [of e tickets m st summary st'] show ?thesis
      by blast
  next
    case (Inl err)
    with Cons.prems a have
      "try_models e tickets ms (errors @ [(m, message_or err ''Unknown error'')]) st1 =
         (Inr (summary, model), st')"
      by (simp split: if_splits)
    then show ?thesis
      by (rule Cons.IH)
  qed
qed


text \<open>
  Claim C10. The tickets of a commit list are exactly the substrings of its messages that
  have the shape upper-case letters, dash, digits and stand between word boundaries; the
  result is sorted ascending and has no duplicates. A summary that the generation returns
  comes from the provider's answer to the last request of the run, a request on the model
  that is returned: it is the text extracted from that answer, with the line of Jira
  tickets appended exactly when there are tickets and the first of them is not a substring
  of that text.
\<close>

theorem extractJiraTickets_spec:
  "set (extractJiraTickets commits) = {t. \<exists>c\<in>set commits. ticket_occurrence (message c) t}
   \<and> sorted (extractJiraTickets commits) \<and> distinct (extractJiraTickets commits)
   \<and> (\<forall>e st summary model st'.
         \<not> demoMode e \<and> commits \<noteq> []
         \<and> generateSummary e commits st = (Inr (summary, model), st') \<longrightarrow>
         (\<exists>m tr r. model = Some m \<and> trace st' = tr @ [GenerateContent m]
            \<and> generate_content e tr m = Inr r \<and> extractResponseText r \<noteq> []
            \<and> summary =
              (if extractJiraTickets commits \<noteq> []
                  \<and> \<not> sublist (hd (extractJiraTickets commits)) (extractResponseText r)
               then extractResponseText r @ NL @ NL @ ''Jira Tickets: ''
                    @ join '', '' (extractJiraTickets commits)
               else extractResponseText r)))"
proof -
  have "set (extractJiraTickets commits) = (\<Union>c\<in>set commits. set (match_tickets None (message c)))"
    by (simp add: extractJiraTickets_def set_collect_tickets)
  then have tickets: "set (extractJiraTickets commits) =
      {t. \<exists>c\<in>set commits. ticket_occurrence (message c) t}"
    by (auto simp: match_tickets_occurrences occurrences_whole_message)
  have ordered: "sorted (extractJiraTickets commits)" and "distinct (extractJiraTickets commits)"
    by (simp_all add: extractJiraTickets_def distinct_collect_tickets)
  have line: "with_jira_tickets ts body =
      (if ts \<noteq> [] \<and> \<not> sublist (hd ts) body
       then body @ NL @ NL @ ''Jira Tickets: '' @ join '', '' ts else body)" for ts body
    by (cases ts) (simp_all add: with_jira_tickets_def js_includes_sublist)
  have "\<exists>m tr r. model = Some m \<and> trace st' = tr @ [GenerateContent m]
          \<and> generate_content e tr m = Inr r \<and> extractResponseText r \<noteq> []
          \<and> summary = with_jira_tickets (extractJiraTickets commits) (extractResponseText r)"
    if "\<not> demoMode e" and "commits \<noteq> []"
      and "generateSummary e commits st = (Inr (summary, model), st')" for e st summary model st'
  proof -
    obtain ms st1 where "getResolvedModelPreference e st = (ms, st1)"
      by (cases "getResolvedModelPreference e st")
    with that have "try_models e (extractJiraTickets commits) ms [] st1 = (Inr (summary, model), st')"
      by (simp add: generateSummary_def split: if_splits)
    then show ?thesis
      by (rule try_models_summary)
  qed
  with tickets ordered \<open>distinct (extractJiraTickets commits)\<close> show ?thesis
    unfolding line by blast
qed

theorem extractJiraTickets_spec_witness:
  "extractJiraTickets ex_ticket_commits = [''AB-7'', ''PROJ-12'']
   \<and> {t. \<exists>c\<in>set ex_ticket_commits. ticket_occurrence (message c) t} = {''AB-7'', ''PROJ-12''}
   \<and> \<not> demoMode ex_env \<and> ex_ticket_commits \<noteq> []
   \<and> generateSummary ex_env ex_ticket_commits initial_state =
       (Inr (''Yesterday, I shipped the login.'' @ NL @ NL @ ''Jira Tickets: AB-7, PROJ-12'',
             Some ''gemini-1.5-flash''),
        \<lparr>availableModelInfoPromise =
           Some (Some [''gemini-1.5-flash'', ''gemini-2.5-flash-preview'', ''gemini-2.5-pro'']),
         resolvedModelPreferencePromise = Some [''gemini-1.5-flash''],
         modelListingWarningLogged = False,
         trace = [ListModels, GenerateContent ''gemini-1.5-flash'']\<rparr>)
   \<and> (\<exists>m tr r. Some ''gemini-1.5-flash'' = Some m
          \<and> [ListModels, GenerateContent ''gemini-1.5-flash''] = tr @ [GenerateContent m]
          \<and> generate_content ex_env tr m = Inr r \<and> extractResponseText r \<noteq> []
          \<and> ''Yesterday, I shipped the login.'' @ NL @ NL @ ''Jira Tickets: AB-7, PROJ-12'' =
            (if extractJiraTickets ex_ticket_commits \<noteq> []
                \<and> \<not> sublist (hd (extractJiraTickets ex_ticket_commits)) (extractResponseText r)
             then extractResponseText r @ NL @ NL @ ''Jira Tickets: ''
                  @ join '', '' (extractJiraTickets ex_ticket_commits)
             else extractResponseText r))
   \<and> \<not> demoMode ex_env_mentions
   \<and> generateSummary ex_env_mentions ex_ticket_commits initial_state =
       (Inr (''Yesterday, I closed AB-7.'', Some ''gemini-1.5-flash''),
        \<lparr>availableModelInfoPromise =
           Some (Some [''gemini-1.5-flash'', ''gemini-2.5-flash-preview'', ''gemini-2.5-pro'']),
         resolvedModelPreferencePromise = Some [''gemini-1.5-flash''],
         modelListingWarningLogged = False,
         trace = [ListModels, GenerateContent ''gemini-1.5-flash'']\<rparr>)
   \<and> (\<exists>m tr r. Some ''gemini-1.5-flash'' = Some m
          \<and> [ListModels, GenerateContent ''gemini-1.5-flash''] = tr @ [GenerateContent m]
          \<and> generate_content ex_env_mentions tr m = Inr r \<and> extractResponseText r \<noteq> []
          \<and> ''Yesterday, I closed AB-7.'' =
            (if extractJiraTickets ex_ticket_commits \<noteq> []
                \<and> \<not> sublist (hd (extractJiraTickets ex_ticket_commits)) (extractResponseText r)
             then extractResponseText r @ NL @ NL @ ''Jira Tickets: ''
                  @ join '', '' (extractJiraTickets ex_ticket_commits)
             else extractResponseText r))"
proof -
  note inst = extractJiraTickets_spec [of ex_ticket_commits]
  have tickets: "extractJiraTickets ex_ticket_commits = [''AB-7'', ''PROJ-12'']"
    by code_simp
  have occ: "{t. \<exists>c\<in>set ex_ticket_commits. ticket_occurrence (message c) t} = {''AB-7'', ''PROJ-12''}"
    unfolding inst [THEN conjunct1, symmetric] tickets by simp
  have live: "\<not> demoMode ex_env" and some: "ex_ticket_commits \<noteq> []"
    and live': "\<not> demoMode ex_env_mentions"
    by code_simp+
  have run: "generateSummary ex_env ex_ticket_commits initial_state =
       (Inr (''Yesterday, I shipped the login.'' @ NL @ NL @ ''Jira Tickets: AB-7, PROJ-12'',
             Some ''gemini-1.5-flash''),
        \<lparr>availableModelInfoPromise =
           Some (Some [''gemini-1.5-flash'', ''gemini-2.5-flash-preview'', ''gemini-2.5-pro'']),
         resolvedModelPreferencePromise = Some [''gemini-1.5-flash''],
         modelListingWarningLogged = False,
         trace = [ListModels, GenerateContent ''gemini-1.5-flash'']\<rparr>)"
    by code_simp
  have run': "generateSummary ex_env_mentions ex_ticket_commits initial_state =
       (Inr (''Yesterday, I closed AB-7.'', Some ''gemini-1.5-flash''),
        \<lparr>availableModelInfoPromise =
           Some (Some [''gemini-1.5-flash'', ''gemini-2.5-flash-preview'', ''gemini-2.5-pro'']),
         resolvedModelPreferencePromise = Some [''gemini-1.5-flash''],
         modelListingWarningLogged = False,
         trace = [ListModels, GenerateContent ''gemini-1.5-flash'']\<rparr>)"
    by code_simp
  note appended = inst [THEN conjunct2, THEN conjunct2, THEN conjunct2, THEN spec, THEN spec,
      THEN spec, THEN spec, THEN spec, THEN mp, OF conjI [OF live conjI [OF some run]],
      unfolded state.simps]
  note kept = inst [THEN conjunct2, THEN conjunct2, THEN conjunct2, THEN spec, THEN spec,
      THEN spec, THEN spec, THEN spec, THEN mp, OF conjI [OF live' conjI [OF some run']],
      unfolded state.simps]
  from tickets occ live some run appended live' run' kept show ?thesis
    by (intro conjI)
qed

end
